theory Spec2Isabelle
  imports Main
begin

section \<open>Values exchanged with the backend\<close>

text \<open>
  The transport of \<^verbatim>\<open>src/lib/transport.ts\<close> moves JSON values: the arguments of a
  command, the \<^verbatim>\<open>data\<close> of a response, the \<^verbatim>\<open>payload\<close> of an event. The code never
  computes with numbers, so a number is kept as an integer; what it does use is
  JavaScript truthiness (\<^verbatim>\<open>msg.id\<close>, \<^verbatim>\<open>msg.error || 'Unknown error'\<close>) and property
  lookup on the parsed message.
\<close>

datatype json =
    JNull
  | JBool bool
  | JNum int
  | JStr string
  | JArr "json list"
  | JObj "(string \<times> json) list"

fun truthy :: "json \<Rightarrow> bool" where
  "truthy JNull = False"
| "truthy (JBool b) = b"
| "truthy (JNum n) = (n \<noteq> 0)"
| "truthy (JStr s) = (s \<noteq> [])"
| "truthy (JArr xs) = True"
| "truthy (JObj kvs) = True"

text \<open>A property that is absent reads as \<^verbatim>\<open>undefined\<close>, which is falsy.\<close>

fun truthy_opt :: "json option \<Rightarrow> bool" where
  "truthy_opt None = False"
| "truthy_opt (Some v) = truthy v"

text \<open>
  \<^verbatim>\<open>msg.key\<close> on a parsed JSON value, for the keys the transport reads (\<^verbatim>\<open>type\<close>,
  \<^verbatim>\<open>id\<close>, \<^verbatim>\<open>data\<close>, \<^verbatim>\<open>error\<close>, \<^verbatim>\<open>event\<close>, \<^verbatim>\<open>payload\<close>): an object yields the
  last binding of the key (\<^verbatim>\<open>JSON.parse\<close> keeps the last duplicate), any other
  non-null value yields \<^verbatim>\<open>undefined\<close>. Reading a property of \<^verbatim>\<open>null\<close> throws; the
  caller handles that case before it reads.
\<close>

fun get_prop :: "json \<Rightarrow> string \<Rightarrow> json option" where
  "get_prop (JObj kvs) k = map_of (rev kvs) k"
| "get_prop v k = None"

section \<open>The state of the transport and of the browser around it\<close>

type_synonym req_id = string
type_synonym timer_id = nat
type_synonym promise_id = nat
type_synonym sock_id = nat
type_synonym handler_id = nat

datatype ready_state = CONNECTING | OPEN | CLOSING | CLOSED

text \<open>
  What a promise returned by \<^verbatim>\<open>WsTransport.invoke\<close> is settled with. \<open>Rejected v\<close>
  stands for \<^verbatim>\<open>reject(new Error(v))\<close>.
\<close>

datatype outcome = Resolved "json option" | Rejected json

text \<open>
  The two closures the code hands to \<^verbatim>\<open>setTimeout\<close>: the expiry of a request
  (capturing the request id, the command name and the promise's \<^verbatim>\<open>reject\<close>), and the
  reconnect callback of \<^verbatim>\<open>scheduleReconnect\<close>.
\<close>

datatype timer_action =
    RequestTimeout req_id string promise_id
  | ReconnectTimer

text \<open>
  \<^verbatim>\<open>interface PendingRequest { resolve; reject; timeout }\<close>: \<^verbatim>\<open>resolve\<close> and
  \<^verbatim>\<open>reject\<close> are the two functions of one promise, named here by that promise.
\<close>

record pending_request =
  promise :: promise_id
  timeout :: timer_id

text \<open>What the pre-flight \<^verbatim>\<open>fetch\<close> of \<^verbatim>\<open>validateAndConnect\<close> can come back with.\<close>

datatype auth_outcome =
    AuthOk            \<comment> \<open>\<^verbatim>\<open>res.ok\<close>\<close>
  | AuthRejected      \<comment> \<open>a response with \<^verbatim>\<open>!res.ok\<close>\<close>
  | AuthUnreachable   \<comment> \<open>\<^verbatim>\<open>fetch\<close> throws: the backend cannot be reached\<close>

text \<open>
  The fields of \<^verbatim>\<open>class WsTransport\<close> (the first group), and the part of the browser
  the class acts on (the second group): the sockets it has created with their
  \<^verbatim>\<open>readyState\<close>, the clock and the timers of \<^verbatim>\<open>setTimeout\<close>, the token in the URL and
  in \<^verbatim>\<open>localStorage\<close>, the pre-flight requests in flight, and logs of what the class
  did to the outside: frames written to a socket, calls of a promise's
  \<^verbatim>\<open>resolve\<close>/\<^verbatim>\<open>reject\<close>, calls of event handlers, \<^verbatim>\<open>console.error\<close> lines, calls of
  state subscribers. A \<^verbatim>\<open>Set\<close> iterates in insertion order and is a list without
  duplicates here. \<open>hung\<close> says that the page is inside a loop that never ends: the
  event loop of such a page runs nothing any more.
\<close>

record transport =
  ws :: "sock_id option"
  pending :: "req_id \<rightharpoonup> pending_request"
  listeners :: "string \<rightharpoonup> handler_id list"
  reconnectAttempt :: nat
  reconnectTimer :: "timer_id option"
  queue :: "json list"
  connected :: bool
  connecting :: bool
  authError :: "string option"
  subscribers :: "nat list"

  sockets :: "sock_id \<rightharpoonup> ready_state"
  next_sock :: sock_id
  now :: nat
  timers :: "timer_id \<rightharpoonup> nat \<times> timer_action"
  next_timer :: timer_id
  next_promise :: promise_id
  url_token :: "string option"
  storage_token :: "string option"
  fetching :: "string list"
  env_wsConnected :: bool
  sent :: "(sock_id \<times> json) list"
  settled :: "(promise_id \<times> outcome) list"
  delivered :: "(handler_id \<times> json option) list"
  console_errors :: "(string \<times> string) list"
  notified :: "nat list"
  hung :: bool

text \<open>
  A fresh page: \<^verbatim>\<open>new WsTransport()\<close> with the field initialisers of the class, at
  time \<open>0\<close>, with whatever token the URL and the storage hold. Timer handles are
  positive integers in a browser, so that \<^verbatim>\<open>if (this.reconnectTimer)\<close> tests for
  a timer being set.
\<close>

definition init :: "string option \<Rightarrow> string option \<Rightarrow> transport" where
  "init url_tok stored_tok =
     \<lparr> ws = None, pending = Map.empty, listeners = Map.empty, reconnectAttempt = 0,
       reconnectTimer = None, queue = [], connected = False, connecting = False,
       authError = None, subscribers = [],
       sockets = Map.empty, next_sock = 0, now = 0, timers = Map.empty, next_timer = 1,
       next_promise = 0, url_token = url_tok, storage_token = stored_tok, fetching = [],
       env_wsConnected = False, sent = [], settled = [], delivered = [],
       console_errors = [], notified = [], hung = False \<rparr>"

section \<open>The methods of \<^verbatim>\<open>WsTransport\<close>\<close>

text \<open>\<^verbatim>\<open>for (const cb of this._subscribers) cb()\<close>\<close>

definition notifySubscribers :: "transport \<Rightarrow> transport" where
  "notifySubscribers s = s\<lparr> notified := notified s @ subscribers s \<rparr>"

definition setConnected :: "bool \<Rightarrow> transport \<Rightarrow> transport" where
  "setConnected v s =
     notifySubscribers (s\<lparr> connected := v, env_wsConnected := v \<rparr>)"

definition setAuthError :: "string option \<Rightarrow> transport \<Rightarrow> transport" where
  "setAuthError e s = notifySubscribers (s\<lparr> authError := e \<rparr>)"

text \<open>\<^verbatim>\<open>this.ws?.readyState\<close>: \<^verbatim>\<open>undefined\<close> when there is no socket.\<close>

definition ws_readyState :: "transport \<Rightarrow> ready_state option" where
  "ws_readyState s = (case ws s of None \<Rightarrow> None | Some k \<Rightarrow> sockets s k)"

text \<open>A string in a condition: the empty string is falsy, \<^verbatim>\<open>null\<close> too.\<close>

fun truthy_str :: "string option \<Rightarrow> bool" where
  "truthy_str None = False"
| "truthy_str (Some t) = (t \<noteq> [])"

text \<open>
  \<^verbatim>\<open>private async validateAndConnect(token)\<close> up to its \<^verbatim>\<open>await fetch(authUrl)\<close>: the
  request is in flight, and the rest of the method runs when it comes back.
\<close>

definition validateAndConnect_start :: "string \<Rightarrow> transport \<Rightarrow> transport" where
  "validateAndConnect_start token s = s\<lparr> fetching := fetching s @ [token] \<rparr>"

text \<open>
  \<^verbatim>\<open>connect()\<close>: nothing while a validation is running or the socket is open or
  opening; otherwise read the token (URL first, then storage), persist and strip a
  URL token, fail with an auth error when there is none, else start validating.
\<close>

definition connect :: "transport \<Rightarrow> transport" where
  "connect s =
     (if connecting s \<or> ws_readyState s = Some OPEN \<or> ws_readyState s = Some CONNECTING
      then s
      else
        let urlToken = url_token s;
            token = (if truthy_str urlToken then the urlToken
                     else if truthy_str (storage_token s) then the (storage_token s)
                     else []);
            s1 = (if truthy_str urlToken
                  then s\<lparr> storage_token := urlToken, url_token := None \<rparr>
                  else s)
        in if token = []
           then setAuthError
                  (Some ''No access token provided. Use the URL from Jean's Web Access settings.'')
                  s1
           else validateAndConnect_start token (s1\<lparr> connecting := True \<rparr>))"

text \<open>
  \<^verbatim>\<open>scheduleReconnect()\<close>: nothing when a reconnect timer is set or an auth error is
  set; otherwise a timer after \<^verbatim>\<open>Math.min(1000 * 2 ** this.reconnectAttempt, 30_000)\<close>
  milliseconds, and one more attempt counted.
\<close>

definition backoff_delay :: "nat \<Rightarrow> nat" where
  "backoff_delay attempt = min (1000 * 2 ^ attempt) 30000"

definition scheduleReconnect :: "transport \<Rightarrow> transport" where
  "scheduleReconnect s =
     (if reconnectTimer s \<noteq> None then s
      else if truthy_str (authError s) then s
      else
        let delay = backoff_delay (reconnectAttempt s);
            t = next_timer s
        in s\<lparr> reconnectAttempt := reconnectAttempt s + 1,
               timers := (timers s)(t \<mapsto> (now s + delay, ReconnectTimer)),
               next_timer := t + 1,
               reconnectTimer := Some t \<rparr>)"

text \<open>
  \<^verbatim>\<open>connectWs(token)\<close>: \<^verbatim>\<open>this.ws = new WebSocket(url)\<close>, a new socket in state
  \<^verbatim>\<open>CONNECTING\<close>; its four handlers are the functions \<open>onopen\<close>, \<open>onmessage\<close>,
  \<open>onclose\<close> below (\<^verbatim>\<open>onerror\<close> does nothing).
\<close>

definition connectWs :: "string \<Rightarrow> transport \<Rightarrow> transport" where
  "connectWs token s =
     (let k = next_sock s
      in s\<lparr> sockets := (sockets s)(k \<mapsto> CONNECTING), next_sock := k + 1, ws := Some k \<rparr>)"

text \<open>
  The rest of \<^verbatim>\<open>validateAndConnect\<close>, once the \<^verbatim>\<open>fetch\<close> has come back, followed by
  the \<^verbatim>\<open>.finally(() => { this._connecting = false })\<close> that \<^verbatim>\<open>connect\<close> attached.
\<close>

definition validateAndConnect_resume :: "auth_outcome \<Rightarrow> string \<Rightarrow> transport \<Rightarrow> transport" where
  "validateAndConnect_resume res token s =
     (case res of
        AuthRejected \<Rightarrow>
          setAuthError
            (Some ''Invalid access token. Check the URL in Jean's Web Access settings.'')
            (s\<lparr> storage_token := None \<rparr>)
      | AuthUnreachable \<Rightarrow> scheduleReconnect (setAuthError None s)
      | AuthOk \<Rightarrow> connectWs token (setAuthError None s))"

definition connect_finally :: "transport \<Rightarrow> transport" where
  "connect_finally s = s\<lparr> connecting := False \<rparr>"

text \<open>
  \<^verbatim>\<open>WebSocket.send\<close> as the browser defines it: written when the socket is open,
  dropped when it is closing or closed, an \<^verbatim>\<open>InvalidStateError\<close> while it is still
  connecting (\<open>None\<close>).
\<close>

definition socket_send :: "sock_id \<Rightarrow> json \<Rightarrow> transport \<Rightarrow> transport option" where
  "socket_send k d s =
     (case sockets s k of
        Some OPEN \<Rightarrow> Some (s\<lparr> sent := sent s @ [(k, d)] \<rparr>)
      | Some CONNECTING \<Rightarrow> None
      | _ \<Rightarrow> Some s)"

text \<open>
  The flush loop of \<^verbatim>\<open>onopen\<close>: \<^verbatim>\<open>for (const item of this.queue) { this.ws?.send(item.data);
  item.resolve() }\<close>, where \<^verbatim>\<open>item.resolve\<close> is the empty function \<^verbatim>\<open>() => {}\<close> that
  \<^verbatim>\<open>invoke\<close> queued. A \<^verbatim>\<open>send\<close> that throws ends the loop and the handler.
\<close>

fun flush_queue :: "json list \<Rightarrow> transport \<Rightarrow> transport option" where
  "flush_queue [] s = Some s"
| "flush_queue (d # ds) s =
     (case ws s of
        None \<Rightarrow> flush_queue ds s
      | Some k \<Rightarrow>
          (case socket_send k d s of
             None \<Rightarrow> None
           | Some s1 \<Rightarrow> flush_queue ds s1))"

text \<open>
  \<^verbatim>\<open>this.ws.onopen\<close>. When the flush throws, the exception leaves the handler before
  \<^verbatim>\<open>this.queue = []\<close>; the browser reports it and goes on.
\<close>

definition onopen :: "transport \<Rightarrow> transport" where
  "onopen s =
     (let s1 = (setConnected True s)\<lparr> reconnectAttempt := 0 \<rparr>
      in case flush_queue (queue s1) s1 of
           None \<Rightarrow> s1
         | Some s2 \<Rightarrow> s2\<lparr> queue := [] \<rparr>)"

text \<open>\<^verbatim>\<open>this.ws.onclose\<close>\<close>

definition onclose :: "transport \<Rightarrow> transport" where
  "onclose s = scheduleReconnect (setConnected False s)"

text \<open>
  \<^verbatim>\<open>async invoke(command, args)\<close>. \<open>rid\<close> is what \<^verbatim>\<open>crypto.randomUUID()\<close> returned; the
  frame is the value that \<^verbatim>\<open>JSON.stringify\<close> serialises. The executor of the new promise
  starts the 60-second timer, registers the request and then either writes the frame
  (the socket was just seen open) or queues it and calls \<^verbatim>\<open>connect\<close>. The result is the
  promise the caller gets.
\<close>

definition invoke_frame :: "req_id \<Rightarrow> string \<Rightarrow> json option \<Rightarrow> json" where
  "invoke_frame rid command args =
     JObj [(''type'', JStr ''invoke''), (''id'', JStr rid), (''command'', JStr command),
           (''args'', (if truthy_opt args then the args else JObj []))]"

definition invoke :: "req_id \<Rightarrow> string \<Rightarrow> json option \<Rightarrow> transport \<Rightarrow> promise_id \<times> transport" where
  "invoke rid command args s =
     (let d = invoke_frame rid command args;
          p = next_promise s;
          t = next_timer s;
          s1 = s\<lparr> next_promise := p + 1,
                  timers := (timers s)(t \<mapsto> (now s + 60000, RequestTimeout rid command p)),
                  next_timer := t + 1 \<rparr>;
          s2 = s1\<lparr> pending := (pending s1)(rid \<mapsto> \<lparr> promise = p, timeout = t \<rparr>) \<rparr>
      in if ws_readyState s2 = Some OPEN
         then (p, s2\<lparr> sent := sent s2 @ [(the (ws s2), d)] \<rparr>)
         else (p, connect (s2\<lparr> queue := queue s2 @ [d] \<rparr>)))"

text \<open>The error a request's timer rejects with.\<close>

definition timeout_error :: "string \<Rightarrow> json" where
  "timeout_error command = JStr (''Command '' @ [CHR 0x27] @ command @ [CHR 0x27] @ '' timed out after 60s'')"

text \<open>
  \<^verbatim>\<open>listen(event, handler)\<close> and the function it returns (\<open>unlisten\<close>):
  \<^verbatim>\<open>this.listeners.get(event)?.delete(typedHandler); if (this.listeners.get(event)?.size === 0)
  this.listeners.delete(event)\<close>.
\<close>

definition listen :: "string \<Rightarrow> handler_id \<Rightarrow> transport \<Rightarrow> transport" where
  "listen ev h s =
     (let s1 = (if listeners s ev = None then s\<lparr> listeners := (listeners s)(ev \<mapsto> []) \<rparr> else s);
          hs = the (listeners s1 ev);
          s2 = s1\<lparr> listeners := (listeners s1)(ev \<mapsto> (if h \<in> set hs then hs else hs @ [h])) \<rparr>
      in connect s2)"

definition unlisten :: "string \<Rightarrow> handler_id \<Rightarrow> transport \<Rightarrow> transport" where
  "unlisten ev h s =
     (let s1 = (case listeners s ev of
                  None \<Rightarrow> s
                | Some hs \<Rightarrow> s\<lparr> listeners := (listeners s)(ev \<mapsto> removeAll h hs) \<rparr>)
      in case listeners s1 ev of
           Some [] \<Rightarrow> s1\<lparr> listeners := (listeners s1)(ev := None) \<rparr>
         | _ \<Rightarrow> s1)"

text \<open>\<^verbatim>\<open>subscribe(callback)\<close> and the function it returns.\<close>

definition subscribe :: "nat \<Rightarrow> transport \<Rightarrow> transport" where
  "subscribe cb s =
     s\<lparr> subscribers := (if cb \<in> set (subscribers s) then subscribers s else subscribers s @ [cb]) \<rparr>"

definition unsubscribe :: "nat \<Rightarrow> transport \<Rightarrow> transport" where
  "unsubscribe cb s = s\<lparr> subscribers := removeAll cb (subscribers s) \<rparr>"

text \<open>
  An event handler is a function of the application. While it runs it can call the
  transport through what the module exports, \<^verbatim>\<open>invoke\<close>, \<^verbatim>\<open>listen\<close> and a function that
  \<^verbatim>\<open>listen\<close> returned, and it can make a component subscribe to the connection status
  or unsubscribe from it. A handler is
  described by the calls it makes, in order, and by whether it then returns
  (\<open>None\<close>) or throws (\<open>Some e\<close>); it decides both from its own identity, the payload
  and anything it can have seen, which is given to it as the state at the moment it is
  called (the log of deliveries included, so that a handler may act differently each
  time it is called).
\<close>

datatype call =
    CallInvoke req_id string "json option"
  | CallListen string handler_id
  | CallUnlisten string handler_id
  | CallSubscribe nat
  | CallUnsubscribe nat

fun do_call :: "call \<Rightarrow> transport \<Rightarrow> transport" where
  "do_call (CallInvoke rid command args) s = snd (invoke rid command args s)"
| "do_call (CallListen ev h) s = listen ev h s"
| "do_call (CallUnlisten ev h) s = unlisten ev h s"
| "do_call (CallSubscribe cb) s = subscribe cb s"
| "do_call (CallUnsubscribe cb) s = unsubscribe cb s"

type_synonym handler_behaviour =
  "handler_id \<Rightarrow> json option \<Rightarrow> transport \<Rightarrow> call list \<times> string option"

text \<open>
  \<^verbatim>\<open>for (const handler of handlers)\<close> iterates the \<^verbatim>\<open>Set\<close> object itself, not a copy:
  a handler deleted from the set before the loop reaches it is not visited, and one
  added while the loop runs is visited at the end. The position of the iterator is
  kept as the handlers it still has to visit; \<open>None\<close> says that the set was emptied and
  removed from the map by \<^verbatim>\<open>this.listeners.delete(event)\<close>, after which a \<^verbatim>\<open>listen\<close>
  creates a new set and the one being iterated stays empty. \<open>call_iter ev c s it\<close> is the
  position after call \<open>c\<close> made in state \<open>s\<close>, for the set of event \<open>ev\<close>: \<^verbatim>\<open>listen\<close>
  appends a handler that the set does not hold, the returned function deletes its
  handler.
\<close>

fun call_iter :: "string \<Rightarrow> call \<Rightarrow> transport \<Rightarrow> handler_id list option \<Rightarrow> handler_id list option" where
  "call_iter ev (CallListen ev' h) s (Some todo) =
     (if ev' = ev \<and> (case listeners s ev of None \<Rightarrow> False | Some hs \<Rightarrow> h \<notin> set hs)
      then Some (todo @ [h]) else Some todo)"
| "call_iter ev (CallUnlisten ev' h) s (Some todo) =
     (if ev' = ev
      then (case listeners s ev of
              None \<Rightarrow> Some todo
            | Some hs \<Rightarrow> if removeAll h hs = [] then None else Some (removeAll h todo))
      else Some todo)"
| "call_iter ev c s it = it"

text \<open>The calls of one handler, in order, on the state and on the position of the iterator.\<close>

fun do_calls ::
  "string \<Rightarrow> call list \<Rightarrow> handler_id list option \<times> transport \<Rightarrow> handler_id list option \<times> transport" where
  "do_calls ev [] r = r"
| "do_calls ev (c # cs) r = do_calls ev cs (call_iter ev c (snd r) (fst r), do_call c (snd r))"

text \<open>
  The fan-out loop of \<^verbatim>\<open>handleMessage\<close>: the next handler is called with the payload;
  what it calls takes effect; if it throws, the \<^verbatim>\<open>catch\<close> writes a \<^verbatim>\<open>console.error\<close> line;
  and the loop goes on with what the iterator has left. Handlers that keep adding
  handlers keep the loop running for ever, and then there is no result (\<open>None\<close>).
\<close>

partial_function (option) fan_loop ::
  "handler_behaviour \<Rightarrow> string \<Rightarrow> json option \<Rightarrow> handler_id list option \<Rightarrow> transport \<Rightarrow> transport option" where
  "fan_loop hb ev payload it s =
     (case it of
        None \<Rightarrow> Some s
      | Some [] \<Rightarrow> Some s
      | Some (h # rest) \<Rightarrow>
          (let s1 = s\<lparr> delivered := delivered s @ [(h, payload)] \<rparr>;
               r = do_calls ev (fst (hb h payload s1)) (Some rest, s1);
               s2 = (case snd (hb h payload s1) of
                       None \<Rightarrow> snd r
                     | Some e \<Rightarrow> (snd r)\<lparr> console_errors := console_errors (snd r) @ [(ev, e)] \<rparr>)
           in fan_loop hb ev payload (fst r) s2))"

text \<open>
  The loop started on the handlers \<open>hs\<close> that \<^verbatim>\<open>this.listeners.get(msg.event)\<close> returned.
  When it never ends the page hangs in the state it had when the message arrived.
\<close>

definition fan_out :: "handler_behaviour \<Rightarrow> string \<Rightarrow> json option \<Rightarrow> handler_id list \<Rightarrow> transport \<Rightarrow> transport" where
  "fan_out hb ev payload hs s =
     (case fan_loop hb ev payload (Some hs) s of
        None \<Rightarrow> s\<lparr> hung := True \<rparr>
      | Some s' \<Rightarrow> s')"

text \<open>
  \<^verbatim>\<open>Map.get\<close> with a key taken from the message: the keys of both maps are strings, so
  a key of any other type finds nothing.
\<close>

fun pending_get :: "transport \<Rightarrow> json option \<Rightarrow> pending_request option" where
  "pending_get s (Some (JStr i)) = pending s i"
| "pending_get s v = None"

fun listeners_get :: "transport \<Rightarrow> json option \<Rightarrow> (string \<times> handler_id list) option" where
  "listeners_get s (Some (JStr e)) = map_option (Pair e) (listeners s e)"
| "listeners_get s v = None"

text \<open>
  \<^verbatim>\<open>clearTimeout(pending.timeout); this.pending.delete(msg.id)\<close>, then the call of
  \<^verbatim>\<open>resolve\<close> or \<^verbatim>\<open>reject\<close>, recorded in \<open>settled\<close>.
\<close>

definition settle_pending :: "req_id \<Rightarrow> pending_request \<Rightarrow> outcome \<Rightarrow> transport \<Rightarrow> transport" where
  "settle_pending i pr out s =
     s\<lparr> timers := (timers s)(timeout pr := None),
        pending := (pending s)(i := None),
        settled := settled s @ [(promise pr, out)] \<rparr>"

fun json_str :: "json option \<Rightarrow> string" where
  "json_str (Some (JStr i)) = i"
| "json_str v = []"

text \<open>
  \<^verbatim>\<open>handleMessage(msg)\<close>. \<open>None\<close> is the \<^verbatim>\<open>TypeError\<close> of reading \<^verbatim>\<open>msg.type\<close> when the
  parsed text was \<^verbatim>\<open>null\<close>.
\<close>

definition handleMessage :: "handler_behaviour \<Rightarrow> json \<Rightarrow> transport \<Rightarrow> transport option" where
  "handleMessage hb msg s =
     (if msg = JNull then None
      else Some (
        if get_prop msg ''type'' = Some (JStr ''response'') \<and> truthy_opt (get_prop msg ''id'') then
          (case pending_get s (get_prop msg ''id'') of
             None \<Rightarrow> s
           | Some pr \<Rightarrow>
               settle_pending (json_str (get_prop msg ''id'')) pr
                 (Resolved (get_prop msg ''data'')) s)
        else if get_prop msg ''type'' = Some (JStr ''error'') \<and> truthy_opt (get_prop msg ''id'') then
          (case pending_get s (get_prop msg ''id'') of
             None \<Rightarrow> s
           | Some pr \<Rightarrow>
               settle_pending (json_str (get_prop msg ''id'')) pr
                 (Rejected (if truthy_opt (get_prop msg ''error'')
                            then the (get_prop msg ''error'') else JStr ''Unknown error'')) s)
        else if get_prop msg ''type'' = Some (JStr ''event'') \<and> truthy_opt (get_prop msg ''event'') then
          (case listeners_get s (get_prop msg ''event'') of
             None \<Rightarrow> s
           | Some (ev, hs) \<Rightarrow> fan_out hb ev (get_prop msg ''payload'') hs s)
        else s))"

text \<open>
  \<^verbatim>\<open>this.ws.onmessage\<close>: \<open>None\<close> is a text that \<^verbatim>\<open>JSON.parse\<close> rejects. Both that
  exception and one out of \<^verbatim>\<open>handleMessage\<close> are swallowed by the \<^verbatim>\<open>catch\<close>.
\<close>

definition onmessage :: "handler_behaviour \<Rightarrow> json option \<Rightarrow> transport \<Rightarrow> transport" where
  "onmessage hb parsed s =
     (case parsed of
        None \<Rightarrow> s
      | Some msg \<Rightarrow> (case handleMessage hb msg s of None \<Rightarrow> s | Some s1 \<Rightarrow> s1))"

text \<open>
  What a timer does when it fires: the expiry closure of \<^verbatim>\<open>invoke\<close>
  (\<^verbatim>\<open>this.pending.delete(id); reject(new Error(...))\<close>), or the reconnect closure of
  \<^verbatim>\<open>scheduleReconnect\<close> (\<^verbatim>\<open>this.reconnectTimer = null; this.connect()\<close>).
\<close>

fun run_timer :: "timer_action \<Rightarrow> transport \<Rightarrow> transport" where
  "run_timer (RequestTimeout rid command p) s =
     s\<lparr> pending := (pending s)(rid := None),
        settled := settled s @ [(p, Rejected (timeout_error command))] \<rparr>"
| "run_timer ReconnectTimer s = connect (s\<lparr> reconnectTimer := None \<rparr>)"

section \<open>The event loop\<close>

text \<open>
  A one-shot timer fires once, not before its time, and is gone afterwards; a timer
  that was cleared never fires.
\<close>

definition fire_timer :: "timer_id \<Rightarrow> transport \<Rightarrow> transport" where
  "fire_timer t s =
     (case timers s t of
        None \<Rightarrow> s
      | Some (due, act) \<Rightarrow>
          if due \<le> now s then run_timer act (s\<lparr> timers := (timers s)(t := None) \<rparr>) else s)"

text \<open>
  Everything that can happen to the transport, one event-loop turn each: a call from
  the application, the pre-flight request coming back, a socket event (delivered by
  the browser only in the socket state that allows it), a timer firing, time passing.
  A page that hangs has no further turns: a run of events stops there.
\<close>

datatype event =
    EInvoke req_id string "json option"
  | EListen string handler_id
  | EUnlisten string handler_id
  | ESubscribe nat
  | EUnsubscribe nat
  | EConnect
  | EAuth auth_outcome
  | EOpen sock_id
  | EMessage sock_id "json option"
  | EClosing sock_id
  | EClose sock_id
  | EError sock_id
  | ETimer timer_id
  | EAdvance nat

fun step :: "handler_behaviour \<Rightarrow> event \<Rightarrow> transport \<Rightarrow> transport" where
  "step hb (EInvoke rid command args) s = snd (invoke rid command args s)"
| "step hb (EListen ev h) s = listen ev h s"
| "step hb (EUnlisten ev h) s = unlisten ev h s"
| "step hb (ESubscribe cb) s = subscribe cb s"
| "step hb (EUnsubscribe cb) s = unsubscribe cb s"
| "step hb EConnect s = connect s"
| "step hb (EAuth res) s =
     (case fetching s of
        [] \<Rightarrow> s
      | token # rest \<Rightarrow>
          connect_finally (validateAndConnect_resume res token (s\<lparr> fetching := rest \<rparr>)))"
| "step hb (EOpen k) s =
     (if sockets s k = Some CONNECTING
      then onopen (s\<lparr> sockets := (sockets s)(k \<mapsto> OPEN) \<rparr>) else s)"
| "step hb (EMessage k parsed) s =
     (if sockets s k = Some OPEN then onmessage hb parsed s else s)"
| "step hb (EClosing k) s =
     (if sockets s k = Some CONNECTING \<or> sockets s k = Some OPEN
      then s\<lparr> sockets := (sockets s)(k \<mapsto> CLOSING) \<rparr> else s)"
| "step hb (EClose k) s =
     (if sockets s k = None \<or> sockets s k = Some CLOSED then s
      else onclose (s\<lparr> sockets := (sockets s)(k \<mapsto> CLOSED) \<rparr>))"
| "step hb (EError k) s = s"
| "step hb (ETimer t) s = fire_timer t s"
| "step hb (EAdvance dt) s = s\<lparr> now := now s + dt \<rparr>"

fun run :: "handler_behaviour \<Rightarrow> event list \<Rightarrow> transport \<Rightarrow> transport" where
  "run hb [] s = s"
| "run hb (e # es) s = (if hung s then s else run hb es (step hb e s))"

text \<open>
  The event loop serving every timer that is due: the timers whose time has come, by
  due time, each fired unless an earlier one removed it. A page that hangs serves none.
\<close>

definition due_timers :: "transport \<Rightarrow> timer_id list" where
  "due_timers s =
     sort_key (\<lambda>t. fst (the (timers s t)))
       (filter (\<lambda>t. case timers s t of None \<Rightarrow> False | Some (due, act) \<Rightarrow> due \<le> now s)
          [0 ..< next_timer s])"

definition drain_timers :: "transport \<Rightarrow> transport" where
  "drain_timers s = (if hung s then s else fold fire_timer (due_timers s) s)"

section \<open>The bootstrap preloader\<close>

text \<open>
  \<^verbatim>\<open>preloadInitialData\<close>, \<^verbatim>\<open>hasPreloadedData\<close> and \<^verbatim>\<open>getPreloadedData\<close> share two module
  variables, \<^verbatim>\<open>initialDataPromise\<close> and \<^verbatim>\<open>initialDataResolved\<close>. A promise is pending or
  fulfilled (the async function catches every error, so it never rejects). \<^verbatim>\<open>then\<close> never
  runs its callback at once: on a fulfilled promise it puts a job on the microtask queue,
  on a pending one it stores the reaction until the promise is fulfilled. The snapshot
  is \<^verbatim>\<open>interface InitialData\<close>. The three fields that \<^verbatim>\<open>seedCache\<close> only tests and
  hands to \<^verbatim>\<open>Object.entries\<close> are kept as the entries that call lists, \<open>None\<close> when the
  field is \<^verbatim>\<open>null\<close>, missing or otherwise falsy; the other three hold the value itself,
  \<open>None\<close> when it is missing.
\<close>

record initial_data =
  projects :: "json option"
  worktreesByProject :: "(string \<times> json) list option"
  sessionsByWorktree :: "(string \<times> json) list option"
  activeSessions :: "(string \<times> json) list option"
  preferences :: "json option"
  uiState :: "json option"

datatype promise_state = PPending | PFulfilled "initial_data option"

text \<open>
  The only callback the module ever passes to \<^verbatim>\<open>then\<close> is \<^verbatim>\<open>data => { result = data }\<close> of
  \<^verbatim>\<open>getPreloadedData\<close>; \<open>SetResult r\<close> is that closure for the local variable \<open>r\<close> of one
  call, and \<open>locals\<close> holds those variables.
\<close>

datatype reaction = SetResult nat

record preloader =
  initialDataPromise :: "promise_state option"
  initialDataResolved :: bool
  reactions :: "reaction list"
  microtasks :: "(reaction \<times> initial_data option) list"
  locals :: "nat \<rightharpoonup> initial_data option"
  next_local :: nat
  init_fetches :: nat

definition preloader_init :: preloader where
  "preloader_init =
     \<lparr> initialDataPromise = None, initialDataResolved = False, reactions = [],
       microtasks = [], locals = Map.empty, next_local = 0, init_fetches = 0 \<rparr>"

text \<open>
  What the \<^verbatim>\<open>fetch\<close> of \<^verbatim>\<open>/api/init\<close> comes back with: a body that parses (to a
  snapshot, or to \<^verbatim>\<open>null\<close>), a response that is not ok, or an exception from \<^verbatim>\<open>fetch\<close>
  or \<^verbatim>\<open>response.json()\<close>.
\<close>

datatype init_response = InitOk "initial_data option" | InitNotOk | InitThrows

text \<open>Fulfilling a promise queues the reactions that were waiting on it.\<close>

definition fulfil :: "initial_data option \<Rightarrow> preloader \<Rightarrow> preloader" where
  "fulfil v st =
     st\<lparr> initialDataPromise := Some (PFulfilled v),
         microtasks := microtasks st @ map (\<lambda>r. (r, v)) (reactions st),
         reactions := [] \<rparr>"

text \<open>
  \<^verbatim>\<open>preloadInitialData()\<close> up to its first \<^verbatim>\<open>await\<close>: nothing in the native app, the
  promise of an earlier call if there is one, a promise fulfilled with \<^verbatim>\<open>null\<close> when
  there is no token, else a pending promise and a request in flight.
\<close>

definition preloadInitialData :: "bool \<Rightarrow> string \<Rightarrow> preloader \<Rightarrow> preloader" where
  "preloadInitialData native token st =
     (if native then st
      else if initialDataPromise st \<noteq> None then st
      else if token = [] then fulfil None (st\<lparr> initialDataPromise := Some PPending \<rparr>)
      else st\<lparr> initialDataPromise := Some PPending, init_fetches := init_fetches st + 1 \<rparr>)"

text \<open>
  The rest of the async function, when the request comes back: \<^verbatim>\<open>initialDataResolved =
  true; return data\<close> on success, \<^verbatim>\<open>return null\<close> otherwise.
\<close>

definition preload_resume :: "init_response \<Rightarrow> preloader \<Rightarrow> preloader" where
  "preload_resume r st =
     (case r of
        InitOk d \<Rightarrow> fulfil d (st\<lparr> initialDataResolved := True \<rparr>)
      | InitNotOk \<Rightarrow> fulfil None st
      | InitThrows \<Rightarrow> fulfil None st)"

definition hasPreloadedData :: "preloader \<Rightarrow> bool" where
  "hasPreloadedData st = initialDataResolved st"

text \<open>\<^verbatim>\<open>promise.then(callback)\<close>\<close>

definition promise_then :: "reaction \<Rightarrow> preloader \<Rightarrow> preloader" where
  "promise_then r st =
     (case initialDataPromise st of
        Some (PFulfilled v) \<Rightarrow> st\<lparr> microtasks := microtasks st @ [(r, v)] \<rparr>
      | _ \<Rightarrow> st\<lparr> reactions := reactions st @ [r] \<rparr>)"

text \<open>
  \<^verbatim>\<open>getPreloadedData()\<close>: \<^verbatim>\<open>let result = null\<close>, the \<^verbatim>\<open>then\<close>, and \<^verbatim>\<open>return result\<close>, which
  reads the variable as it is when the function returns.
\<close>

definition getPreloadedData :: "preloader \<Rightarrow> initial_data option \<times> preloader" where
  "getPreloadedData st =
     (if \<not> initialDataResolved st \<or> initialDataPromise st = None then (None, st)
      else
        let r = next_local st;
            st1 = st\<lparr> locals := (locals st)(r \<mapsto> None), next_local := r + 1 \<rparr>;
            st2 = promise_then (SetResult r) st1
        in (case locals st2 r of Some v \<Rightarrow> v | None \<Rightarrow> None, st2))"

text \<open>The event loop running the microtasks that are queued, after the caller has returned.\<close>

fun run_reaction :: "reaction \<times> initial_data option \<Rightarrow> preloader \<Rightarrow> preloader" where
  "run_reaction (SetResult r, v) st = st\<lparr> locals := (locals st)(r \<mapsto> v) \<rparr>"

definition run_microtasks :: "preloader \<Rightarrow> preloader" where
  "run_microtasks st = fold run_reaction (microtasks st) (st\<lparr> microtasks := [] \<rparr>)"

section \<open>The query cache of the application\<close>

text \<open>
  \<^verbatim>\<open>App\<close> seeds the query cache from the snapshot and invalidates queries when the socket
  connects. A query has a key (an array), its data, and the flag that
  \<^verbatim>\<open>invalidateQueries\<close> sets. \<^verbatim>\<open>setQueryData\<close> stores data under a key, creating the query
  if there is none, and the stored data counts as fresh; \<^verbatim>\<open>invalidateQueries\<close> marks
  every query that the predicate accepts.
\<close>

record query =
  queryKey :: "json list"
  queryData :: "json option"
  isInvalidated :: bool

definition setQueryData :: "json list \<Rightarrow> json \<Rightarrow> query list \<Rightarrow> query list" where
  "setQueryData k v cache =
     (if k \<in> queryKey ` set cache
      then map (\<lambda>q. if queryKey q = k then q\<lparr> queryData := Some v, isInvalidated := False \<rparr> else q) cache
      else cache @ [\<lparr> queryKey = k, queryData = Some v, isInvalidated = False \<rparr>])"

definition invalidateQueries :: "(query \<Rightarrow> bool) \<Rightarrow> query list \<Rightarrow> query list" where
  "invalidateQueries pred cache = map (\<lambda>q. if pred q then q\<lparr> isInvalidated := True \<rparr> else q) cache"

text \<open>
  \<^verbatim>\<open>projectsQueryKeys\<close> and \<^verbatim>\<open>chatQueryKeys\<close> are defined in \<^verbatim>\<open>@/services/projects\<close> and
  \<^verbatim>\<open>@/services/chat\<close>; the four key functions that \<^verbatim>\<open>seedCache\<close> calls are taken as given.
\<close>

record key_functions =
  projects_list :: "json list"
  projects_worktrees :: "string \<Rightarrow> json list"
  chat_sessions :: "string \<Rightarrow> json list"
  chat_session :: "string \<Rightarrow> json list"

text \<open>
  \<^verbatim>\<open>for (const x of v)\<close>: an array yields its elements and a string its characters;
  any other value, \<^verbatim>\<open>undefined\<close> included, is not iterable, and the loop throws a
  \<^verbatim>\<open>TypeError\<close> (\<open>None\<close>).
\<close>

fun iterate :: "json option \<Rightarrow> json list option" where
  "iterate (Some (JArr xs)) = Some xs"
| "iterate (Some (JStr s)) = Some (map (\<lambda>c. JStr [c]) s)"
| "iterate v = None"

text \<open>
  The two loops of \<^verbatim>\<open>seedCache\<close> that feed the chat store, as far as they can throw.
  \<^verbatim>\<open>for (const session of wts.sessions) { sessionMappings[session.id] = ... }\<close> throws when
  the sessions data is \<^verbatim>\<open>null\<close>, when its \<^verbatim>\<open>sessions\<close> is not iterable, and when an
  element is \<^verbatim>\<open>null\<close>; \<^verbatim>\<open>for (const wt of worktrees) { if (wt.id && wt.path) ... }\<close> throws when
  the value is not iterable and when an element is \<^verbatim>\<open>null\<close>. The predicates say that the
  loop runs through.
\<close>

definition scan_sessions :: "json \<Rightarrow> bool" where
  "scan_sessions sessionsData \<longleftrightarrow>
     sessionsData \<noteq> JNull \<and>
     (case iterate (get_prop sessionsData ''sessions'') of
        None \<Rightarrow> False
      | Some sessions \<Rightarrow> JNull \<notin> set sessions)"

definition scan_worktrees :: "json \<Rightarrow> bool" where
  "scan_worktrees worktrees \<longleftrightarrow>
     (case iterate (Some worktrees) of
        None \<Rightarrow> False
      | Some wts \<Rightarrow> JNull \<notin> set wts)"

text \<open>
  What a call of \<^verbatim>\<open>seedCache\<close> ends with: it returns, or it throws; either way the
  cache holds what was written until then.
\<close>

datatype seeding = Seeded "query list" | Threw "query list"

text \<open>
  \<^verbatim>\<open>for (const [id, value] of Object.entries(record)) queryClient.setQueryData(key(id), value)\<close>,
  the loop over the worktrees of each project and over the active sessions.
\<close>

definition seed_entries :: "(string \<Rightarrow> json list) \<Rightarrow> (string \<times> json) list \<Rightarrow> query list \<Rightarrow> query list" where
  "seed_entries key entries cache = fold (\<lambda>(k, v). setQueryData (key k) v) entries cache"

text \<open>
  The loop over \<^verbatim>\<open>data.sessionsByWorktree\<close>: each entry is written to the cache and then
  scanned for the chat store.
\<close>

fun seed_sessions :: "key_functions \<Rightarrow> (string \<times> json) list \<Rightarrow> query list \<Rightarrow> seeding" where
  "seed_sessions kf [] cache = Seeded cache"
| "seed_sessions kf ((worktreeId, sessionsData) # rest) cache =
     (let cache1 = setQueryData (chat_sessions kf worktreeId) sessionsData cache
      in if scan_sessions sessionsData then seed_sessions kf rest cache1 else Threw cache1)"

text \<open>
  \<^verbatim>\<open>seedCache(data)\<close>: the projects, the worktrees of each project, the sessions of each
  worktree together with the two scans (the second one runs over the worktrees again,
  only when there are sessions), then the active sessions, the preferences and the UI
  state. The update of the chat store that follows the scans
  (\<^verbatim>\<open>useChatStore.getState\<close>, \<^verbatim>\<open>useChatStore.setState\<close>) does not touch the query cache
  and is taken not to throw.
\<close>

definition seedCache :: "key_functions \<Rightarrow> initial_data \<Rightarrow> query list \<Rightarrow> seeding" where
  "seedCache kf d cache =
     (let c1 = (if truthy_opt (projects d)
                then setQueryData (projects_list kf) (the (projects d)) cache else cache);
          c2 = (case worktreesByProject d of
                  None \<Rightarrow> c1
                | Some wts \<Rightarrow> seed_entries (projects_worktrees kf) wts c1);
          r3 = (case sessionsByWorktree d of
                  None \<Rightarrow> Seeded c2
                | Some ss \<Rightarrow>
                    (case seed_sessions kf ss c2 of
                       Threw c \<Rightarrow> Threw c
                     | Seeded c \<Rightarrow>
                         (case worktreesByProject d of
                            None \<Rightarrow> Seeded c
                          | Some wts \<Rightarrow>
                              if list_all (\<lambda>(projectId, worktrees). scan_worktrees worktrees) wts
                              then Seeded c else Threw c)))
      in case r3 of
           Threw c \<Rightarrow> Threw c
         | Seeded c3 \<Rightarrow>
             (let c4 = (case activeSessions d of
                          None \<Rightarrow> c3
                        | Some ss \<Rightarrow> seed_entries (chat_session kf) ss c3);
                  c5 = (if truthy_opt (preferences d)
                        then setQueryData [JStr ''preferences''] (the (preferences d)) c4 else c4);
                  c6 = (if truthy_opt (uiState d)
                        then setQueryData [JStr ''ui-state''] (the (uiState d)) c5 else c5)
              in Seeded c6))"

text \<open>
  \<^verbatim>\<open>preloadInitialData().then(data => { if (data) { ...; seedCache(data) } }).catch(...)\<close>:
  an exception out of \<^verbatim>\<open>seedCache\<close> is logged by the \<^verbatim>\<open>catch\<close> and the cache stays as
  it was when the exception was thrown.
\<close>

definition on_preloaded :: "key_functions \<Rightarrow> initial_data option \<Rightarrow> query list \<Rightarrow> query list" where
  "on_preloaded kf data cache =
     (case data of
        None \<Rightarrow> cache
      | Some d \<Rightarrow> (case seedCache kf d cache of Seeded c \<Rightarrow> c | Threw c \<Rightarrow> c))"

text \<open>
  The keys the preloader has seeded: the keys of the queries that seeding writes, which
  are the queries it leaves in a cache that was empty.
\<close>

definition seeded_keys :: "key_functions \<Rightarrow> initial_data option \<Rightarrow> json list set" where
  "seeded_keys kf data = queryKey ` set (on_preloaded kf data [])"

text \<open>
  The predicate of the effect on \<^verbatim>\<open>wsConnected\<close>: \<^verbatim>\<open>const key = query.queryKey[0]; return
  key !== 'projects' && key !== 'preferences' && key !== 'ui-state' && key !== 'chat'\<close>.
\<close>

definition first_key :: "query \<Rightarrow> json option" where
  "first_key q = (case queryKey q of [] \<Rightarrow> None | k # ks \<Rightarrow> Some k)"

definition invalidate_predicate :: "query \<Rightarrow> bool" where
  "invalidate_predicate q \<longleftrightarrow>
     first_key q \<noteq> Some (JStr ''projects'') \<and> first_key q \<noteq> Some (JStr ''preferences'') \<and>
     first_key q \<noteq> Some (JStr ''ui-state'') \<and> first_key q \<noteq> Some (JStr ''chat'')"

text \<open>The effect itself: \<^verbatim>\<open>if (!isNativeApp() && wsConnected) queryClient.invalidateQueries(...)\<close>.\<close>

definition on_ws_connected :: "bool \<Rightarrow> bool \<Rightarrow> query list \<Rightarrow> query list" where
  "on_ws_connected native wsConnected cache =
     (if \<not> native \<and> wsConnected then invalidateQueries invalidate_predicate cache else cache)"

text \<open>
  Key functions of the shape every key object in the repository has: a fixed first
  element, then the ids.
\<close>

definition std_keys :: key_functions where
  "std_keys =
     \<lparr> projects_list = [JStr ''projects''],
       projects_worktrees = (\<lambda>p. [JStr ''projects'', JStr p, JStr ''worktrees'']),
       chat_sessions = (\<lambda>w. [JStr ''chat'', JStr ''sessions'', JStr w]),
       chat_session = (\<lambda>i. [JStr ''chat'', JStr ''session'', JStr i]) \<rparr>"

section \<open>Consistency of the correlation table with the timers\<close>

text \<open>
  The facts that hold of the pending table, the timers and the settlement log in every
  state the transport can reach: timer handles are below the next handle; a promise with
  a live expiry timer has been created and is not settled; no promise has two expiry
  timers; every pending entry's timer is live and is the expiry timer of that entry's
  request and promise; no promise is settled twice; only created promises are settled;
  every created promise is settled or has a live expiry timer; and the handle in
  \<^verbatim>\<open>reconnectTimer\<close> is that of a live reconnect timer.
\<close>

definition timers_below :: "transport \<Rightarrow> bool" where
  "timers_below s \<longleftrightarrow> (\<forall>t x. timers s t = Some x \<longrightarrow> t < next_timer s)"

definition armed :: "transport \<Rightarrow> promise_id \<Rightarrow> bool" where
  "armed s p \<longleftrightarrow> (\<exists>t d rid c. timers s t = Some (d, RequestTimeout rid c p))"

definition is_settled :: "transport \<Rightarrow> promise_id \<Rightarrow> bool" where
  "is_settled s p \<longleftrightarrow> p \<in> fst ` set (settled s)"

definition armed_unsettled :: "transport \<Rightarrow> bool" where
  "armed_unsettled s \<longleftrightarrow> (\<forall>p. armed s p \<longrightarrow> p < next_promise s \<and> \<not> is_settled s p)"

definition one_timer :: "transport \<Rightarrow> bool" where
  "one_timer s \<longleftrightarrow>
     (\<forall>t t' d d' rid rid' c c' p.
        timers s t = Some (d, RequestTimeout rid c p) \<longrightarrow>
        timers s t' = Some (d', RequestTimeout rid' c' p) \<longrightarrow> t = t')"

definition pending_armed :: "transport \<Rightarrow> bool" where
  "pending_armed s \<longleftrightarrow>
     (\<forall>rid pr. pending s rid = Some pr \<longrightarrow>
        (\<exists>d c. timers s (timeout pr) = Some (d, RequestTimeout rid c (promise pr))))"

definition settled_below :: "transport \<Rightarrow> bool" where
  "settled_below s \<longleftrightarrow> (\<forall>p. is_settled s p \<longrightarrow> p < next_promise s)"

definition all_tracked :: "transport \<Rightarrow> bool" where
  "all_tracked s \<longleftrightarrow> (\<forall>p < next_promise s. is_settled s p \<or> armed s p)"

definition reconnect_armed :: "transport \<Rightarrow> bool" where
  "reconnect_armed s \<longleftrightarrow>
     (\<forall>t. reconnectTimer s = Some t \<longrightarrow> (\<exists>d. timers s t = Some (d, ReconnectTimer)))"

definition consistent :: "transport \<Rightarrow> bool" where
  "consistent s \<longleftrightarrow> timers_below s \<and> armed_unsettled s \<and> one_timer s \<and> pending_armed s \<and>
     distinct (map fst (settled s)) \<and> settled_below s \<and> all_tracked s \<and> reconnect_armed s"

text \<open>
  What one step can do to the pending table, the timers and the settlement log, a step
  being what the transport does on an event or on one call of a handler while a message
  is handled. \<open>A\<close> is the set of request ids a message may answer in this step.
\<close>

inductive core_step :: "req_id set \<Rightarrow> transport \<Rightarrow> transport \<Rightarrow> bool" for A where
  keep:
    "pending s' = pending s \<Longrightarrow> timers s' = timers s \<Longrightarrow> settled s' = settled s \<Longrightarrow>
     next_timer s' = next_timer s \<Longrightarrow> next_promise s' = next_promise s \<Longrightarrow>
     now s \<le> now s' \<Longrightarrow> reconnectTimer s' = reconnectTimer s \<Longrightarrow> core_step A s s'"
| new_reconnect:
    "pending s' = pending s \<Longrightarrow>
     timers s' = (timers s)(next_timer s \<mapsto> (d, ReconnectTimer)) \<Longrightarrow>
     settled s' = settled s \<Longrightarrow> next_timer s' = next_timer s + 1 \<Longrightarrow>
     next_promise s' = next_promise s \<Longrightarrow> now s' = now s \<Longrightarrow> reconnectTimer s' = Some (next_timer s) \<Longrightarrow> core_step A s s'"
| invoked:
    "pending s' = (pending s)(rid \<mapsto> \<lparr> promise = next_promise s, timeout = next_timer s \<rparr>) \<Longrightarrow>
     timers s' = (timers s)(next_timer s \<mapsto> (now s + 60000, RequestTimeout rid c (next_promise s))) \<Longrightarrow>
     settled s' = settled s \<Longrightarrow> next_timer s' = next_timer s + 1 \<Longrightarrow>
     next_promise s' = next_promise s + 1 \<Longrightarrow> now s' = now s \<Longrightarrow> reconnectTimer s' = reconnectTimer s \<Longrightarrow> core_step A s s'"
| answered:
    "rid \<in> A \<Longrightarrow> pending s rid = Some pr \<Longrightarrow>
     pending s' = (pending s)(rid := None) \<Longrightarrow>
     timers s' = (timers s)(timeout pr := None) \<Longrightarrow>
     settled s' = settled s @ [(promise pr, out)] \<Longrightarrow> next_timer s' = next_timer s \<Longrightarrow>
     next_promise s' = next_promise s \<Longrightarrow> now s' = now s \<Longrightarrow> reconnectTimer s' = reconnectTimer s \<Longrightarrow> core_step A s s'"
| expired:
    "timers s t = Some (d, RequestTimeout rid c p) \<Longrightarrow> d \<le> now s \<Longrightarrow>
     pending s' = (pending s)(rid := None) \<Longrightarrow>
     timers s' = (timers s)(t := None) \<Longrightarrow>
     settled s' = settled s @ [(p, Rejected (timeout_error c))] \<Longrightarrow>
     next_timer s' = next_timer s \<Longrightarrow>
     next_promise s' = next_promise s \<Longrightarrow> now s' = now s \<Longrightarrow> reconnectTimer s' = reconnectTimer s \<Longrightarrow> core_step A s s'"
| reconnect_fired:
    "timers s t = Some (d, ReconnectTimer) \<Longrightarrow> d \<le> now s \<Longrightarrow>
     pending s' = pending s \<Longrightarrow>
     timers s' = (timers s)(t := None) \<Longrightarrow>
     settled s' = settled s \<Longrightarrow> next_timer s' = next_timer s \<Longrightarrow>
     next_promise s' = next_promise s \<Longrightarrow> now s' = now s \<Longrightarrow> reconnectTimer s' = None \<Longrightarrow> core_step A s s'"

text \<open>
  Whether a parsed message is a response or an error message bearing a given request id,
  what it settles the request with, and the events that deliver such a message or
  register that id.
\<close>

definition is_answer :: "json \<Rightarrow> req_id \<Rightarrow> bool" where
  "is_answer msg rid \<longleftrightarrow>
     (get_prop msg ''type'' = Some (JStr ''response'') \<or> get_prop msg ''type'' = Some (JStr ''error''))
     \<and> get_prop msg ''id'' = Some (JStr rid)"

definition answer_outcome :: "json \<Rightarrow> outcome" where
  "answer_outcome msg =
     (if get_prop msg ''type'' = Some (JStr ''response'') then Resolved (get_prop msg ''data'')
      else Rejected (if truthy_opt (get_prop msg ''error'') then the (get_prop msg ''error'')
                     else JStr ''Unknown error''))"

fun answers :: "req_id \<Rightarrow> event \<Rightarrow> bool" where
  "answers rid (EMessage k (Some msg)) = is_answer msg rid"
| "answers rid e = False"

fun invokes :: "req_id \<Rightarrow> event \<Rightarrow> bool" where
  "invokes rid (EInvoke rid' c a) = (rid' = rid)"
| "invokes rid e = False"

fun is_message :: "event \<Rightarrow> bool" where
  "is_message (EMessage k parsed) = True"
| "is_message e = False"

text \<open>No handler ever issues an \<^verbatim>\<open>invoke\<close> that draws the request id \<open>rid\<close>.\<close>

definition never_invokes :: "handler_behaviour \<Rightarrow> req_id \<Rightarrow> bool" where
  "never_invokes hb rid \<longleftrightarrow> (\<forall>h payload s c a. CallInvoke rid c a \<notin> set (fst (hb h payload s)))"

text \<open>How many handlers the iterator of the fan-out loop has left to visit.\<close>

definition iter_left :: "handler_id list option \<Rightarrow> nat" where
  "iter_left it = (case it of None \<Rightarrow> 0 | Some todo \<Rightarrow> length todo)"

text \<open>A call that registers or unregisters a handler of the event \<open>ev\<close>.\<close>

fun touches :: "string \<Rightarrow> call \<Rightarrow> bool" where
  "touches ev (CallListen ev' h) = (ev' = ev)"
| "touches ev (CallUnlisten ev' h) = (ev' = ev)"
| "touches ev c = False"

text \<open>
  The states the transport can be in: those some sequence of events leads to from a fresh
  page, each event handled to its end.
\<close>

inductive reachable :: "handler_behaviour \<Rightarrow> transport \<Rightarrow> bool" for hb where
  fresh: "reachable hb (init url_tok stored_tok)"
| after: "reachable hb s \<Longrightarrow> \<not> hung (step hb e s) \<Longrightarrow> reachable hb (step hb e s)"

text \<open>No event name is mapped to an empty set of handlers.\<close>

definition no_empty_sets :: "transport \<Rightarrow> bool" where
  "no_empty_sets s \<longleftrightarrow> (\<forall>ev. listeners s ev \<noteq> Some [])"

section \<open>The connection life cycle\<close>

text \<open>
  The part of the state that decides whether and how the transport connects, and the
  facts about it that hold in every reachable state: a socket that is connecting or open
  is the transport's current socket; socket ids are below the next id; at most one
  pre-flight check is in flight, exactly while \<^verbatim>\<open>_connecting\<close> is set; and while one is in
  flight no socket is connecting or open and the URL carries no token any more.
\<close>

definition auth_view ::
  "transport \<Rightarrow> sock_id option \<times> (sock_id \<rightharpoonup> ready_state) \<times> sock_id \<times> string list \<times> bool \<times>
     string option \<times> string option \<times> string option" where
  "auth_view s =
     (ws s, sockets s, next_sock s, fetching s, connecting s, url_token s, storage_token s, authError s)"

definition conn_ok :: "transport \<Rightarrow> bool" where
  "conn_ok s \<longleftrightarrow>
     (\<forall>k. sockets s k = Some CONNECTING \<or> sockets s k = Some OPEN \<longrightarrow> ws s = Some k) \<and>
     (\<forall>k r. sockets s k = Some r \<longrightarrow> k < next_sock s) \<and>
     length (fetching s) \<le> 1 \<and>
     (connecting s \<longleftrightarrow> fetching s \<noteq> []) \<and>
     (fetching s \<noteq> [] \<longrightarrow>
        (\<forall>k. sockets s k \<noteq> Some CONNECTING \<and> sockets s k \<noteq> Some OPEN) \<and>
        \<not> truthy_str (url_token s))"

text \<open>
  The state after a rejected token: an auth error is set, neither the storage nor the
  URL holds a token, and nothing is in flight.
\<close>

definition auth_failed :: "transport \<Rightarrow> bool" where
  "auth_failed s \<longleftrightarrow>
     truthy_str (authError s) \<and> storage_token s = None \<and> \<not> truthy_str (url_token s) \<and>
     fetching s = [] \<and> \<not> connecting s \<and> (\<forall>k. sockets s k \<noteq> Some CONNECTING)"

text \<open>No reconnect timer is live in the second state that was not live in the first.\<close>

definition no_new_reconnect :: "transport \<Rightarrow> transport \<Rightarrow> bool" where
  "no_new_reconnect s s' \<longleftrightarrow>
     (\<forall>t d. timers s' t = Some (d, ReconnectTimer) \<longrightarrow> timers s t = Some (d, ReconnectTimer))"

text \<open>
  A reconnect was scheduled in the step from the first state to the second: one more
  attempt is counted, and the new timer, which \<^verbatim>\<open>reconnectTimer\<close> holds, is due after
  \<^verbatim>\<open>Math.min(1000 * 2 ** attempt, 30_000)\<close> milliseconds, with the attempt count of
  before.
\<close>

definition scheduled_here :: "transport \<Rightarrow> transport \<Rightarrow> bool" where
  "scheduled_here s s' \<longleftrightarrow>
     reconnectAttempt s' = reconnectAttempt s + 1 \<and>
     reconnectTimer s' = Some (next_timer s) \<and>
     timers s' (next_timer s) =
       Some (now s + min (1000 * 2 ^ reconnectAttempt s) 30000, ReconnectTimer)"

section \<open>Following one request\<close>

text \<open>
  \<open>awaiting p rid c due s\<close>: promise \<open>p\<close> has been created, every expiry timer that would
  reject it is the one started for request \<open>rid\<close> of command \<open>c\<close> and is due at \<open>due\<close>,
  and \<open>p\<close> is settled or such a timer is live. \<open>only_timed_out p c due s\<close>: if \<open>p\<close> is
  settled at all, then by that timer's error, and not before \<open>due\<close>.
\<close>

definition awaiting :: "promise_id \<Rightarrow> req_id \<Rightarrow> string \<Rightarrow> nat \<Rightarrow> transport \<Rightarrow> bool" where
  "awaiting p rid c due s \<longleftrightarrow>
     p < next_promise s \<and>
     (\<forall>t d rid' c'. timers s t = Some (d, RequestTimeout rid' c' p) \<longrightarrow>
        d = due \<and> rid' = rid \<and> c' = c) \<and>
     (is_settled s p \<or> armed s p)"

definition only_timed_out :: "promise_id \<Rightarrow> string \<Rightarrow> nat \<Rightarrow> transport \<Rightarrow> bool" where
  "only_timed_out p c due s \<longleftrightarrow>
     (\<forall>out. (p, out) \<in> set (settled s) \<longrightarrow> out = Rejected (timeout_error c) \<and> due \<le> now s)"

section \<open>Concrete states used as examples\<close>

text \<open>A page with a stored token on which two handlers listen to the event \<^verbatim>\<open>status\<close>.\<close>

definition two_listeners :: transport where
  "two_listeners = listen ''status'' 2 (listen ''status'' 1 (init None (Some ''tok'')))"

text \<open>
  An event message for \<^verbatim>\<open>status\<close>; handlers that call nothing; handlers of which the
  first throws; and handlers of which the first unregisters the second and then throws.
\<close>

definition status_event :: json where
  "status_event = JObj [(''type'', JStr ''event''), (''event'', JStr ''status''), (''payload'', JNum 7)]"

definition quiet :: handler_behaviour where
  "quiet h payload s = ([], None)"

definition first_throws :: handler_behaviour where
  "first_throws h payload s = ([], if h = 1 then Some ''boom'' else None)"

definition first_unlistens_second :: handler_behaviour where
  "first_unlistens_second h payload s =
     (if h = 1 then ([CallUnlisten ''status'' 2], Some ''boom'') else ([], None))"

text \<open>
  Three more kinds of handlers of \<^verbatim>\<open>status\<close>: the first registers a third handler; the
  first unregisters both handlers, which empties the set, and then registers two new
  ones; and every handler registers a new handler, numbered one higher.
\<close>

definition first_listens_third :: handler_behaviour where
  "first_listens_third h payload s = (if h = 1 then ([CallListen ''status'' 3], None) else ([], None))"

definition first_replaces_all :: handler_behaviour where
  "first_replaces_all h payload s =
     (if h = 1
      then ([CallUnlisten ''status'' 1, CallUnlisten ''status'' 2, CallListen ''status'' 3,
             CallListen ''status'' 4], None)
      else ([], None))"

definition each_listens_next :: handler_behaviour where
  "each_listens_next h payload s = ([CallListen ''status'' (h + 1)], None)"

text \<open>
  A page whose pre-flight check is in flight, and one on which two commands were issued
  before the socket opened (the scenario of section 8 of the specification).
\<close>

definition awaiting_auth :: transport where
  "awaiting_auth = step quiet EConnect (init None (Some ''tok''))"

definition two_queued :: transport where
  "two_queued =
     run quiet
       [EInvoke ''a'' ''get_data'' None, EInvoke ''b'' ''get_data'' None, EAuth AuthOk]
       (init None (Some ''tok''))"

text \<open>A connected page with three requests outstanding.\<close>

definition three_pending :: transport where
  "three_pending =
     run quiet
       [EConnect, EAuth AuthOk, EOpen 0, EInvoke ''a'' ''x'' None, EInvoke ''b'' ''y'' None,
        EInvoke ''c'' ''z'' None]
       (init None (Some ''tok''))"

text \<open>
  A page whose socket has closed, so that a reconnect timer is pending (due at 1000
  milliseconds), and on which a command is then issued at 999 milliseconds: \<^verbatim>\<open>invoke\<close>
  finds the socket closed and calls \<^verbatim>\<open>connect\<close>, which starts a pre-flight check
  while the timer is still pending.
\<close>

definition recheck_while_timer_pending :: transport where
  "recheck_while_timer_pending =
     run quiet
       [EConnect, EAuth AuthOk, EOpen 0, EClose 0, EAdvance 999, EInvoke ''a'' ''x'' None]
       (init None (Some ''tok''))"

text \<open>The response to the second of the three requests.\<close>

definition answer_b :: json where
  "answer_b = JObj [(''type'', JStr ''response''), (''id'', JStr ''b''), (''data'', JNum 5)]"

text \<open>
  A snapshot in which the sessions of the worktree lack their \<^verbatim>\<open>sessions\<close> array; a
  snapshot whose UI state is \<^verbatim>\<open>null\<close>, and the preloader after it has arrived; and four
  queries of the application: the UI state, the sessions of a worktree with their counts
  (the key of \<^verbatim>\<open>ProjectSettingsDialog\<close>), the git status of a worktree, and the
  preferences.
\<close>

definition snapshot_without_sessions :: initial_data where
  "snapshot_without_sessions =
     \<lparr> projects = Some (JArr [JObj [(''id'', JStr ''p1'')]]),
       worktreesByProject = Some [(''p1'', JArr [])],
       sessionsByWorktree = Some [(''w1'', JObj [])],
       activeSessions = None,
       preferences = Some (JObj [(''theme'', JStr ''dark'')]),
       uiState = Some (JObj []) \<rparr>"

definition snapshot :: initial_data where
  "snapshot =
     \<lparr> projects = Some (JArr [JObj [(''id'', JStr ''p1'')]]),
       worktreesByProject = Some [(''p1'', JArr [])],
       sessionsByWorktree = Some [(''w1'', JObj [(''sessions'', JArr [])])],
       activeSessions = None,
       preferences = Some (JObj [(''theme'', JStr ''dark'')]),
       uiState = Some JNull \<rparr>"

definition preloaded :: preloader where
  "preloaded =
     preload_resume (InitOk (Some snapshot)) (preloadInitialData False ''tok'' preloader_init)"

definition ui_state_query :: query where
  "ui_state_query = \<lparr> queryKey = [JStr ''ui-state''], queryData = None, isInvalidated = False \<rparr>"

definition with_counts_query :: query where
  "with_counts_query =
     \<lparr> queryKey = chat_sessions std_keys ''w1'' @ [JStr ''with-counts''], queryData = None,
       isInvalidated = False \<rparr>"

definition preferences_query :: query where
  "preferences_query = \<lparr> queryKey = [JStr ''preferences''], queryData = None, isInvalidated = False \<rparr>"

definition git_status_query :: query where
  "git_status_query =
     \<lparr> queryKey = [JStr ''git-status'', JStr ''w1''], queryData = None, isInvalidated = False \<rparr>"
section \<open>What each method leaves alone\<close>

lemma notifySubscribers_core [simp]:
  "pending (notifySubscribers s) = pending s" "timers (notifySubscribers s) = timers s"
  "settled (notifySubscribers s) = settled s" "next_timer (notifySubscribers s) = next_timer s"
  "next_promise (notifySubscribers s) = next_promise s" "now (notifySubscribers s) = now s"
  "reconnectTimer (notifySubscribers s) = reconnectTimer s"
  by (simp_all add: notifySubscribers_def)

lemma setConnected_core [simp]:
  "pending (setConnected v s) = pending s" "timers (setConnected v s) = timers s"
  "settled (setConnected v s) = settled s" "next_timer (setConnected v s) = next_timer s"
  "next_promise (setConnected v s) = next_promise s" "now (setConnected v s) = now s"
  "reconnectTimer (setConnected v s) = reconnectTimer s"
  by (simp_all add: setConnected_def)

lemma setAuthError_core [simp]:
  "pending (setAuthError v s) = pending s" "timers (setAuthError v s) = timers s"
  "settled (setAuthError v s) = settled s" "next_timer (setAuthError v s) = next_timer s"
  "next_promise (setAuthError v s) = next_promise s" "now (setAuthError v s) = now s"
  "reconnectTimer (setAuthError v s) = reconnectTimer s"
  by (simp_all add: setAuthError_def)

lemma connect_core [simp]:
  "pending (connect s) = pending s" "timers (connect s) = timers s"
  "settled (connect s) = settled s" "next_timer (connect s) = next_timer s"
  "next_promise (connect s) = next_promise s" "now (connect s) = now s"
  "reconnectTimer (connect s) = reconnectTimer s"
  by (simp_all add: connect_def validateAndConnect_start_def Let_def)

lemma connectWs_core [simp]:
  "pending (connectWs tok s) = pending s" "timers (connectWs tok s) = timers s"
  "settled (connectWs tok s) = settled s" "next_timer (connectWs tok s) = next_timer s"
  "next_promise (connectWs tok s) = next_promise s" "now (connectWs tok s) = now s"
  "reconnectTimer (connectWs tok s) = reconnectTimer s"
  by (simp_all add: connectWs_def Let_def)

lemma connect_finally_core [simp]:
  "pending (connect_finally s) = pending s" "timers (connect_finally s) = timers s"
  "settled (connect_finally s) = settled s" "next_timer (connect_finally s) = next_timer s"
  "next_promise (connect_finally s) = next_promise s" "now (connect_finally s) = now s"
  "reconnectTimer (connect_finally s) = reconnectTimer s"
  by (simp_all add: connect_finally_def)

lemma scheduleReconnect_core [simp]:
  "pending (scheduleReconnect s) = pending s"
  "settled (scheduleReconnect s) = settled s"
  "next_promise (scheduleReconnect s) = next_promise s" "now (scheduleReconnect s) = now s"
  by (simp_all add: scheduleReconnect_def Let_def)

lemma scheduleReconnect_timers:
  "(timers (scheduleReconnect s) = timers s \<and> next_timer (scheduleReconnect s) = next_timer s \<and>
    reconnectTimer (scheduleReconnect s) = reconnectTimer s) \<or>
   (timers (scheduleReconnect s) =
      (timers s)(next_timer s \<mapsto> (now s + backoff_delay (reconnectAttempt s), ReconnectTimer)) \<and>
    next_timer (scheduleReconnect s) = next_timer s + 1 \<and>
    reconnectTimer (scheduleReconnect s) = Some (next_timer s))"
  by (simp add: scheduleReconnect_def Let_def)

lemma flush_queue_core:
  "flush_queue ds s = Some s' \<Longrightarrow>
     pending s' = pending s \<and> timers s' = timers s \<and> settled s' = settled s \<and>
     next_timer s' = next_timer s \<and> next_promise s' = next_promise s \<and> now s' = now s \<and>
     reconnectTimer s' = reconnectTimer s"
  by (induction ds arbitrary: s)
     (auto simp: socket_send_def split: option.splits ready_state.splits)

lemma onopen_core [simp]:
  "pending (onopen s) = pending s" "timers (onopen s) = timers s"
  "settled (onopen s) = settled s" "next_timer (onopen s) = next_timer s"
  "next_promise (onopen s) = next_promise s" "now (onopen s) = now s"
  "reconnectTimer (onopen s) = reconnectTimer s"
  by (auto simp: onopen_def Let_def dest: flush_queue_core split: option.splits)

lemma listen_core [simp]:
  "pending (listen ev h s) = pending s" "timers (listen ev h s) = timers s"
  "settled (listen ev h s) = settled s" "next_timer (listen ev h s) = next_timer s"
  "next_promise (listen ev h s) = next_promise s" "now (listen ev h s) = now s"
  "reconnectTimer (listen ev h s) = reconnectTimer s"
  by (simp_all add: listen_def Let_def)

lemma unlisten_core [simp]:
  "pending (unlisten ev h s) = pending s" "timers (unlisten ev h s) = timers s"
  "settled (unlisten ev h s) = settled s" "next_timer (unlisten ev h s) = next_timer s"
  "next_promise (unlisten ev h s) = next_promise s" "now (unlisten ev h s) = now s"
  "reconnectTimer (unlisten ev h s) = reconnectTimer s"
  by (simp_all add: unlisten_def Let_def split: option.splits list.splits)

lemma subscribe_core [simp]:
  "pending (subscribe cb s) = pending s" "timers (subscribe cb s) = timers s"
  "settled (subscribe cb s) = settled s" "next_timer (subscribe cb s) = next_timer s"
  "next_promise (subscribe cb s) = next_promise s" "now (subscribe cb s) = now s"
  "reconnectTimer (subscribe cb s) = reconnectTimer s"
  "pending (unsubscribe cb s) = pending s" "timers (unsubscribe cb s) = timers s"
  "settled (unsubscribe cb s) = settled s" "next_timer (unsubscribe cb s) = next_timer s"
  "next_promise (unsubscribe cb s) = next_promise s" "now (unsubscribe cb s) = now s"
  "reconnectTimer (unsubscribe cb s) = reconnectTimer s"
  by (simp_all add: subscribe_def unsubscribe_def)

section \<open>A page that hangs\<close>

lemma hung_methods [simp]:
  "hung (notifySubscribers s) = hung s" "hung (setConnected v s) = hung s"
  "hung (setAuthError e s) = hung s" "hung (connect s) = hung s"
  "hung (connectWs tok s) = hung s" "hung (connect_finally s) = hung s"
  "hung (scheduleReconnect s) = hung s" "hung (snd (invoke rid c a s)) = hung s"
  "hung (listen ev h s) = hung s" "hung (unlisten ev h s) = hung s"
  "hung (subscribe cb s) = hung s" "hung (unsubscribe cb s) = hung s"
  "hung (validateAndConnect_resume res tok s) = hung s"
  by (simp_all add: notifySubscribers_def setConnected_def setAuthError_def connect_def
      connectWs_def connect_finally_def scheduleReconnect_def invoke_def listen_def unlisten_def
      subscribe_def unsubscribe_def validateAndConnect_resume_def validateAndConnect_start_def
      Let_def split: option.splits list.splits auth_outcome.splits)

lemma hung_flush_queue: "flush_queue ds s = Some s' \<Longrightarrow> hung s' = hung s"
  by (induction ds arbitrary: s)
     (auto simp: socket_send_def split: option.splits ready_state.splits)

lemma hung_onopen [simp]: "hung (onopen s) = hung s"
  by (auto simp: onopen_def Let_def dest: hung_flush_queue split: option.splits)

lemma hung_onclose [simp]: "hung (onclose s) = hung s"
  by (simp add: onclose_def)

lemma hung_fire_timer [simp]: "hung (fire_timer t s) = hung s"
proof (cases "timers s t")
  case None
  then show ?thesis by (simp add: fire_timer_def)
next
  case (Some x)
  obtain d act where "x = (d, act)" by (cases x)
  with Some show ?thesis by (cases act) (simp_all add: fire_timer_def)
qed

lemma hung_do_call [simp]: "hung (do_call c s) = hung s"
  by (cases c) simp_all

lemma hung_step: "\<not> is_message e \<Longrightarrow> hung (step hb e s) = hung s"
  by (cases e) (simp_all split: list.splits)

lemma run_hung: "hung s \<Longrightarrow> run hb es s = s"
  by (cases es) simp_all

lemma run_not_hung:
  assumes "\<not> hung s" "\<forall>e \<in> set es. \<not> is_message e"
  shows "\<not> hung (run hb es s)"
  using assms by (induction es arbitrary: s) (simp_all add: hung_step)

section \<open>The fan-out loop\<close>

lemma fan_loop_None [simp]: "fan_loop hb ev payload None s = Some s"
  by (subst fan_loop.simps) simp

lemma fan_loop_Nil [simp]: "fan_loop hb ev payload (Some []) s = Some s"
  by (subst fan_loop.simps) simp

lemma fan_loop_Cons:
  "fan_loop hb ev payload (Some (h # rest)) s =
     (let s1 = s\<lparr> delivered := delivered s @ [(h, payload)] \<rparr>;
          r = do_calls ev (fst (hb h payload s1)) (Some rest, s1);
          s2 = (case snd (hb h payload s1) of
                  None \<Rightarrow> snd r
                | Some e \<Rightarrow> (snd r)\<lparr> console_errors := console_errors (snd r) @ [(ev, e)] \<rparr>)
      in fan_loop hb ev payload (fst r) s2)"
  by (subst fan_loop.simps) simp

lemma do_calls_preserves:
  assumes "P (snd r)" "\<And>x c. c \<in> set cs \<Longrightarrow> P x \<Longrightarrow> P (do_call c x)"
  shows "P (snd (do_calls ev cs r))"
  using assms by (induction cs arbitrary: r) simp_all

text \<open>
  Whatever holds before the loop, and is kept by a delivery, by a \<^verbatim>\<open>console.error\<close> line
  and by every call a handler makes, holds when the loop returns.
\<close>

lemma fan_loop_preserves:
  assumes "fan_loop hb ev payload it s = Some s'" "P s"
    and "\<And>x h. P x \<Longrightarrow> P (x\<lparr> delivered := delivered x @ [(h, payload)] \<rparr>)"
    and "\<And>x e. P x \<Longrightarrow> P (x\<lparr> console_errors := console_errors x @ [(ev, e)] \<rparr>)"
    and "\<And>x h y c. c \<in> set (fst (hb h payload y)) \<Longrightarrow> P x \<Longrightarrow> P (do_call c x)"
  shows "P s'"
proof -
  have "hb = hb \<and> ev = ev \<and> payload = payload \<longrightarrow> P s \<longrightarrow> P s'"
  proof (rule fan_loop.raw_induct[where P = "\<lambda>a b c d x y. a = hb \<and> b = ev \<and> c = payload \<longrightarrow> P x \<longrightarrow> P y",
        OF _ assms(1)], goal_cases)
    case (1 f hb' ev' payload' it0 s0 y)
    show ?case
    proof (intro impI)
      assume eq: "hb' = hb \<and> ev' = ev \<and> payload' = payload" and p: "P s0"
      show "P y"
      proof (cases it0)
        case None
        with 1(2) p show ?thesis by simp
      next
        case (Some todo)
        show ?thesis
        proof (cases todo)
          case Nil
          with Some 1(2) p show ?thesis by simp
        next
          case (Cons h rest)
          let ?s1 = "s0\<lparr> delivered := delivered s0 @ [(h, payload)] \<rparr>"
          let ?r = "do_calls ev (fst (hb h payload ?s1)) (Some rest, ?s1)"
          let ?s2 = "(case snd (hb h payload ?s1) of
                  None \<Rightarrow> snd ?r
                | Some e \<Rightarrow> (snd ?r)\<lparr> console_errors := console_errors (snd ?r) @ [(ev, e)] \<rparr>)"
          from p have p1: "P ?s1" by (rule assms(3))
          have pr: "P (snd ?r)"
          proof (rule do_calls_preserves[where P = P])
            show "P (snd (Some rest, ?s1))" using p1 by simp
            show "P (do_call c x)" if "c \<in> set (fst (hb h payload ?s1))" "P x" for x c
              using that by (rule assms(5))
          qed
          have p2: "P ?s2"
          proof (cases "snd (hb h payload ?s1)")
            case None
            with pr show ?thesis by simp
          next
            case (Some e)
            from pr have "P ((snd ?r)\<lparr> console_errors := console_errors (snd ?r) @ [(ev, e)] \<rparr>)"
              by (rule assms(4))
            with Some show ?thesis by simp
          qed
          from eq have e: "hb' = hb" "ev' = ev" "payload' = payload" by simp_all
          from 1(2) have "f hb ev payload (fst ?r) ?s2 = Some y"
            unfolding Some Cons e by (simp add: Let_def)
          from 1(1)[OF this] p2 show ?thesis by simp
        qed
      qed
    qed
  qed
  with assms(2) show ?thesis by simp
qed

lemma fan_out_preserves:
  assumes "P s" "P (s\<lparr> hung := True \<rparr>)"
    and "\<And>x h. P x \<Longrightarrow> P (x\<lparr> delivered := delivered x @ [(h, payload)] \<rparr>)"
    and "\<And>x e. P x \<Longrightarrow> P (x\<lparr> console_errors := console_errors x @ [(ev, e)] \<rparr>)"
    and "\<And>x h y c. c \<in> set (fst (hb h payload y)) \<Longrightarrow> P x \<Longrightarrow> P (do_call c x)"
  shows "P (fan_out hb ev payload hs s)"
proof (cases "fan_loop hb ev payload (Some hs) s")
  case None
  with assms(2) show ?thesis by (simp add: fan_out_def)
next
  case (Some s')
  from Some assms(1,3,4,5) have "P s'" by (rule fan_loop_preserves[where P = P])
  with Some show ?thesis by (simp add: fan_out_def)
qed

lemma pending_get_Some:
  "pending_get s v = Some pr \<Longrightarrow> \<exists>i. v = Some (JStr i) \<and> pending s i = Some pr"
  by (cases "(s, v)" rule: pending_get.cases) auto

lemma listeners_get_Some:
  "listeners_get s v = Some (ev, hs) \<Longrightarrow> v = Some (JStr ev) \<and> listeners s ev = Some hs"
  by (cases "(s, v)" rule: listeners_get.cases) auto

text \<open>The three things \<^verbatim>\<open>handleMessage\<close> can do.\<close>

lemma handleMessage_cases:
  assumes "handleMessage hb msg s = Some s'"
  obtains (same) "s' = s"
  | (answer) rid pr out where "is_answer msg rid" "pending s rid = Some pr"
      "s' = settle_pending rid pr out s"
  | (event) ev hs where "listeners s ev = Some hs"
      "s' = fan_out hb ev (get_prop msg ''payload'') hs s"
proof (cases "get_prop msg ''type'' = Some (JStr ''response'') \<or>
              get_prop msg ''type'' = Some (JStr ''error'')")
  case True
  show ?thesis
  proof (cases "truthy_opt (get_prop msg ''id'')")
    case False
    with True assms have "s' = s" by (auto simp: handleMessage_def split: if_splits)
    then show ?thesis by (rule same)
  next
    case id: True
    show ?thesis
    proof (cases "pending_get s (get_prop msg ''id'')")
      case None
      with True id assms have "s' = s" by (auto simp: handleMessage_def split: if_splits)
      then show ?thesis by (rule same)
    next
      case (Some pr)
      from pending_get_Some[OF Some] obtain i where
        i: "get_prop msg ''id'' = Some (JStr i)" "pending s i = Some pr" by blast
      with True have a: "is_answer msg i" by (simp add: is_answer_def)
      from True id Some i assms have "\<exists>out. s' = settle_pending i pr out s"
        by (auto simp: handleMessage_def split: if_splits)
      then obtain out where "s' = settle_pending i pr out s" by blast
      with a i(2) show ?thesis by (rule answer)
    qed
  qed
next
  case False
  show ?thesis
  proof (cases "get_prop msg ''type'' = Some (JStr ''event'') \<and> truthy_opt (get_prop msg ''event'')")
    case no: False
    with False assms have "s' = s" by (auto simp: handleMessage_def split: if_splits)
    then show ?thesis by (rule same)
  next
    case True
    show ?thesis
    proof (cases "listeners_get s (get_prop msg ''event'')")
      case None
      with False True assms have "s' = s" by (auto simp: handleMessage_def split: if_splits)
      then show ?thesis by (rule same)
    next
      case (Some x)
      obtain ev hs where x: "x = (ev, hs)" by (cases x)
      from listeners_get_Some[OF Some[unfolded x]] have l: "listeners s ev = Some hs" by simp
      from False True Some x assms have "s' = fan_out hb ev (get_prop msg ''payload'') hs s"
        by (auto simp: handleMessage_def split: if_splits)
      with l show ?thesis by (rule event)
    qed
  qed
qed

text \<open>
  Whatever holds before a message is handled, and is kept by settling a pending request
  that the message answers, by a delivery, by a \<^verbatim>\<open>console.error\<close> line, by every call a
  handler makes and by the page hanging, holds afterwards.
\<close>

lemma onmessage_preserves:
  assumes "P s" "P (s\<lparr> hung := True \<rparr>)"
    and "\<And>x h payload. P x \<Longrightarrow> P (x\<lparr> delivered := delivered x @ [(h, payload)] \<rparr>)"
    and "\<And>x ev e. P x \<Longrightarrow> P (x\<lparr> console_errors := console_errors x @ [(ev, e)] \<rparr>)"
    and "\<And>x h payload y c. c \<in> set (fst (hb h payload y)) \<Longrightarrow> P x \<Longrightarrow> P (do_call c x)"
    and "\<And>msg rid pr out. parsed = Some msg \<Longrightarrow> is_answer msg rid \<Longrightarrow> pending s rid = Some pr \<Longrightarrow>
           P (settle_pending rid pr out s)"
  shows "P (onmessage hb parsed s)"
proof (cases parsed)
  case None
  with assms(1) show ?thesis by (simp add: onmessage_def)
next
  case (Some msg)
  show ?thesis
  proof (cases "handleMessage hb msg s")
    case None
    with Some assms(1) show ?thesis by (simp add: onmessage_def)
  next
    case s': (Some s')
    have "P s'"
      using s'
    proof (cases rule: handleMessage_cases)
      case same
      with assms(1) show ?thesis by simp
    next
      case (answer rid pr out)
      with assms(6)[OF Some] show ?thesis by simp
    next
      case (event ev hs)
      have "P (fan_out hb ev (get_prop msg ''payload'') hs s)"
      proof (rule fan_out_preserves[where P = P])
        show "P (do_call c x)" if "c \<in> set (fst (hb h (get_prop msg ''payload'') y))" "P x" for x h y c
          using that by (rule assms(5))
      qed (use assms in auto)
      with event show ?thesis by simp
    qed
    with Some s' show ?thesis by (simp add: onmessage_def)
  qed
qed

section \<open>Every event keeps the state consistent\<close>

lemma consistent_init: "consistent (init u t)"
  by (simp add: consistent_def init_def timers_below_def armed_unsettled_def armed_def one_timer_def
      pending_armed_def settled_below_def is_settled_def all_tracked_def reconnect_armed_def)

lemma is_settled_append:
  "settled s' = settled s @ [(p, out)] \<Longrightarrow> is_settled s' q \<longleftrightarrow> is_settled s q \<or> q = p"
  by (auto simp: is_settled_def)

lemma is_settled_same:
  "settled s' = settled s \<Longrightarrow> is_settled s' q \<longleftrightarrow> is_settled s q"
  by (simp add: is_settled_def)

lemma fresh_timer: "timers_below s \<Longrightarrow> timers s (next_timer s) = None"
  unfolding timers_below_def by (cases "timers s (next_timer s)") auto

lemma armed_add_reconnect:
  assumes "timers_below s" "timers s' = (timers s)(next_timer s \<mapsto> (d, ReconnectTimer))"
  shows "armed s' q \<longleftrightarrow> armed s q"
  using fresh_timer[OF assms(1)] assms(2) unfolding armed_def
  by (metis fun_upd_apply option.discI option.inject prod.inject timer_action.simps(3))

lemma armed_add_request:
  assumes "timers_below s" "timers s' = (timers s)(next_timer s \<mapsto> (d, RequestTimeout rid c p))"
  shows "armed s' q \<longleftrightarrow> armed s q \<or> q = p"
  using fresh_timer[OF assms(1)] assms(2) unfolding armed_def
  by (metis fun_upd_apply option.discI option.inject prod.inject timer_action.inject)

lemma armed_remove_request:
  assumes "one_timer s" "timers s t = Some (d, RequestTimeout rid c p)"
    "timers s' = (timers s)(t := None)"
  shows "armed s' q \<longleftrightarrow> armed s q \<and> q \<noteq> p"
proof
  assume "armed s' q"
  then obtain t' d' rid' c' where t': "timers s' t' = Some (d', RequestTimeout rid' c' q)"
    by (auto simp: armed_def)
  with assms(3) have ne: "t' \<noteq> t" and old: "timers s t' = Some (d', RequestTimeout rid' c' q)"
    by (auto split: if_splits)
  have "q \<noteq> p"
  proof
    assume "q = p"
    with assms(1,2) old have "t' = t" unfolding one_timer_def by blast
    with ne show False by simp
  qed
  with old show "armed s q \<and> q \<noteq> p" by (auto simp: armed_def)
next
  assume a: "armed s q \<and> q \<noteq> p"
  then obtain t' d' rid' c' where old: "timers s t' = Some (d', RequestTimeout rid' c' q)"
    by (auto simp: armed_def)
  with a assms(2) have "t' \<noteq> t" by auto
  with old assms(3) have "timers s' t' = Some (d', RequestTimeout rid' c' q)" by simp
  then show "armed s' q" by (auto simp: armed_def)
qed

lemma armed_remove_reconnect:
  assumes "timers s t = Some (d, ReconnectTimer)" "timers s' = (timers s)(t := None)"
  shows "armed s' q \<longleftrightarrow> armed s q"
  using assms unfolding armed_def
  by (metis (mono_tags, lifting) fun_upd_apply map_upd_Some_unfold option.discI prod.inject
      timer_action.simps(3))

lemma pending_armed_add:
  assumes "timers_below s" "pending_armed s" "pending s' = pending s"
     "timers s' = (timers s)(next_timer s \<mapsto> x)"
  shows "pending_armed s'"
  using fresh_timer[OF assms(1)] assms(2-) unfolding pending_armed_def
  by fastforce

lemma pending_armed_invoked:
  assumes "timers_below s" "pending_armed s"
    "pending s' = (pending s)(rid \<mapsto> \<lparr> promise = p, timeout = next_timer s \<rparr>)"
     "timers s' = (timers s)(next_timer s \<mapsto> (d, RequestTimeout rid c p))"
  shows "pending_armed s'"
  unfolding pending_armed_def
proof (intro allI impI)
  fix rid' pr assume pr: "pending s' rid' = Some pr"
  show "\<exists>d c. timers s' (timeout pr) = Some (d, RequestTimeout rid' c (promise pr))"
  proof (cases "rid' = rid")
    case True
    with pr assms(3) have "pr = \<lparr> promise = p, timeout = next_timer s \<rparr>" by simp
    with True assms(4) show ?thesis by simp
  next
    case False
    with pr assms(3) have "pending s rid' = Some pr" by simp
    with assms(2) obtain d' c' where
      old: "timers s (timeout pr) = Some (d', RequestTimeout rid' c' (promise pr))"
      unfolding pending_armed_def by blast
    with fresh_timer[OF assms(1)] have "timeout pr \<noteq> next_timer s" by auto
    with old assms(4) show ?thesis by simp
  qed
qed

lemma pending_armed_answered:
  assumes "pending_armed s" "pending s rid = Some pr"
    "pending s' = (pending s)(rid := None)" "timers s' = (timers s)(timeout pr := None)"
  shows "pending_armed s'"
  unfolding pending_armed_def
proof (intro allI impI)
  fix rid' pr' assume pr': "pending s' rid' = Some pr'"
  with assms(3) have ne: "rid' \<noteq> rid" and old: "pending s rid' = Some pr'"
    by (auto split: if_splits)
  from assms(1) old obtain d' c' where
    t': "timers s (timeout pr') = Some (d', RequestTimeout rid' c' (promise pr'))"
    unfolding pending_armed_def by blast
  from assms(1,2) obtain d c where
    t: "timers s (timeout pr) = Some (d, RequestTimeout rid c (promise pr))"
    unfolding pending_armed_def by blast
  from t t' ne have "timeout pr' \<noteq> timeout pr" by auto
  with t' assms(4)
  show "\<exists>d c. timers s' (timeout pr') = Some (d, RequestTimeout rid' c (promise pr'))"
    by simp
qed

lemma pending_armed_expired:
  assumes "pending_armed s" "timers s t = Some (d, RequestTimeout rid c p)"
    "pending s' = (pending s)(rid := None)" "timers s' = (timers s)(t := None)"
  shows "pending_armed s'"
  unfolding pending_armed_def
proof (intro allI impI)
  fix rid' pr' assume pr': "pending s' rid' = Some pr'"
  with assms(3) have ne: "rid' \<noteq> rid" and old: "pending s rid' = Some pr'"
    by (auto split: if_splits)
  from assms(1) old obtain d' c' where
    t': "timers s (timeout pr') = Some (d', RequestTimeout rid' c' (promise pr'))"
    unfolding pending_armed_def by blast
  with assms(2) ne have "timeout pr' \<noteq> t" by auto
  with t' assms(4)
  show "\<exists>d c. timers s' (timeout pr') = Some (d, RequestTimeout rid' c (promise pr'))"
    by simp
qed

lemma pending_armed_reconnect_fired:
  assumes "pending_armed s" "timers s t = Some (d, ReconnectTimer)"
    "pending s' = pending s" "timers s' = (timers s)(t := None)"
  shows "pending_armed s'"
  unfolding pending_armed_def
proof (intro allI impI)
  fix rid' pr' assume "pending s' rid' = Some pr'"
  with assms(3) have old: "pending s rid' = Some pr'" by simp
  from assms(1) old obtain d' c' where
    t': "timers s (timeout pr') = Some (d', RequestTimeout rid' c' (promise pr'))"
    unfolding pending_armed_def by blast
  with assms(2) have "timeout pr' \<noteq> t" by auto
  with t' assms(4)
  show "\<exists>d c. timers s' (timeout pr') = Some (d, RequestTimeout rid' c (promise pr'))"
    by simp
qed

lemma one_timer_remove:
  assumes "one_timer s" "timers s' = (timers s)(t := None)"
  shows "one_timer s'"
  unfolding one_timer_def
proof (intro allI impI)
  fix t1 t2 d1 d2 rid1 rid2 c1 c2 p
  assume "timers s' t1 = Some (d1, RequestTimeout rid1 c1 p)"
    and "timers s' t2 = Some (d2, RequestTimeout rid2 c2 p)"
  with assms(2) have "timers s t1 = Some (d1, RequestTimeout rid1 c1 p)"
    and "timers s t2 = Some (d2, RequestTimeout rid2 c2 p)"
    by (simp_all split: if_splits)
  with assms(1) show "t1 = t2" unfolding one_timer_def by blast
qed

lemma timers_below_remove:
  assumes "timers_below s" "timers s' = (timers s)(t := None)" "next_timer s' = next_timer s"
  shows "timers_below s'"
  unfolding timers_below_def
proof (intro allI impI)
  fix t1 x assume "timers s' t1 = Some x"
  with assms(2) have "timers s t1 = Some x" by (simp split: if_splits)
  with assms(1,3) show "t1 < next_timer s'" unfolding timers_below_def by simp
qed

lemma timers_below_add:
  assumes "timers_below s" "timers s' = (timers s)(next_timer s \<mapsto> x)"
    "next_timer s' = next_timer s + 1"
  shows "timers_below s'"
  unfolding timers_below_def
proof (intro allI impI)
  fix t1 y assume a: "timers s' t1 = Some y"
  show "t1 < next_timer s'"
  proof (cases "t1 = next_timer s")
    case True
    with assms(3) show ?thesis by simp
  next
    case False
    with a assms(2) have "timers s t1 = Some y" by simp
    with assms(1) have "t1 < next_timer s" unfolding timers_below_def by blast
    with assms(3) show ?thesis by simp
  qed
qed

lemma one_timer_add_reconnect:
  assumes "one_timer s" "timers s' = (timers s)(t \<mapsto> (d, ReconnectTimer))"
  shows "one_timer s'"
  unfolding one_timer_def
proof (intro allI impI)
  fix t1 t2 d1 d2 rid1 rid2 c1 c2 p
  assume "timers s' t1 = Some (d1, RequestTimeout rid1 c1 p)"
    and "timers s' t2 = Some (d2, RequestTimeout rid2 c2 p)"
  with assms(2) have "timers s t1 = Some (d1, RequestTimeout rid1 c1 p)"
    and "timers s t2 = Some (d2, RequestTimeout rid2 c2 p)"
    by (simp_all split: if_splits)
  with assms(1) show "t1 = t2" unfolding one_timer_def by blast
qed

lemma one_timer_add_request:
  assumes "one_timer s" "armed_unsettled s"
    "timers s' = (timers s)(t \<mapsto> (d, RequestTimeout rid c (next_promise s)))"
  shows "one_timer s'"
proof -
  have na: "\<not> armed s (next_promise s)"
    using assms(2) unfolding armed_unsettled_def by auto
  have old: "timers s u = Some (e, RequestTimeout r k q) \<and> q \<noteq> next_promise s"
    if "timers s' u = Some (e, RequestTimeout r k q)" "u \<noteq> t" for u e r k q
  proof -
    from that assms(3) have "timers s u = Some (e, RequestTimeout r k q)" by simp
    moreover from this na have "q \<noteq> next_promise s" unfolding armed_def by blast
    ultimately show ?thesis by simp
  qed
  have new: "q = next_promise s" if "timers s' t = Some (e, RequestTimeout r k q)" for e r k q
    using that assms(3) by simp
  show ?thesis
    unfolding one_timer_def
  proof (intro allI impI)
    fix t1 t2 d1 d2 rid1 rid2 c1 c2 p
    assume a: "timers s' t1 = Some (d1, RequestTimeout rid1 c1 p)"
      and b: "timers s' t2 = Some (d2, RequestTimeout rid2 c2 p)"
    consider "t1 = t" "t2 = t" | "t1 = t" "t2 \<noteq> t" | "t1 \<noteq> t" "t2 = t" | "t1 \<noteq> t" "t2 \<noteq> t"
      by blast
    then show "t1 = t2"
    proof cases
      case 1 then show ?thesis by simp
    next
      case 2
      with a have "p = next_promise s" using new by blast
      moreover from 2 b have "p \<noteq> next_promise s" using old by blast
      ultimately show ?thesis by simp
    next
      case 3
      with b have "p = next_promise s" using new by blast
      moreover from 3 a have "p \<noteq> next_promise s" using old by blast
      ultimately show ?thesis by simp
    next
      case 4
      with a b have "timers s t1 = Some (d1, RequestTimeout rid1 c1 p)"
        and "timers s t2 = Some (d2, RequestTimeout rid2 c2 p)"
        using old by blast+
      with assms(1) show ?thesis unfolding one_timer_def by blast
    qed
  qed
qed

lemma consistent_core_step:
  assumes "core_step A s s'" "consistent s"
  shows "consistent s'"
  using assms(1)
proof (cases rule: core_step.cases)
  case keep
  with \<open>consistent s\<close> show ?thesis
    by (simp add: consistent_def timers_below_def armed_unsettled_def armed_def one_timer_def
        pending_armed_def settled_below_def all_tracked_def is_settled_def reconnect_armed_def)
next
  case (new_reconnect d)
  from \<open>consistent s\<close> have tb: "timers_below s" by (simp add: consistent_def)
  note ar = armed_add_reconnect[OF tb new_reconnect(2)]
  note st = is_settled_same[OF new_reconnect(3)]
  from \<open>consistent s\<close> new_reconnect have "timers_below s'" "one_timer s'" "pending_armed s'"
    unfolding consistent_def
    by (blast intro: timers_below_add one_timer_add_reconnect pending_armed_add)+
  moreover from \<open>consistent s\<close> new_reconnect have "armed_unsettled s'" "settled_below s'" "all_tracked s'"
    "distinct (map fst (settled s'))"
    unfolding consistent_def by (simp_all add: ar st armed_unsettled_def settled_below_def all_tracked_def)
  moreover from new_reconnect have "reconnect_armed s'"
    unfolding reconnect_armed_def by simp
  ultimately show ?thesis by (simp add: consistent_def)
next
  case (invoked rid c)
  from \<open>consistent s\<close> have tb: "timers_below s" by (simp add: consistent_def)
  note ar = armed_add_request[OF tb invoked(2)]
  note st = is_settled_same[OF invoked(3)]
  from \<open>consistent s\<close> invoked have "timers_below s'" "one_timer s'" "pending_armed s'"
    unfolding consistent_def
    by (blast intro: timers_below_add one_timer_add_request pending_armed_invoked)+
  moreover from \<open>consistent s\<close> invoked have "armed_unsettled s'" "settled_below s'" "all_tracked s'"
    "distinct (map fst (settled s'))"
    unfolding consistent_def
    by (auto simp: ar st armed_unsettled_def settled_below_def all_tracked_def less_Suc_eq)
  moreover have "reconnect_armed s'"
    unfolding reconnect_armed_def
  proof (intro allI impI)
    fix t assume "reconnectTimer s' = Some t"
    with invoked have "reconnectTimer s = Some t" by simp
    with \<open>consistent s\<close> obtain d where d: "timers s t = Some (d, ReconnectTimer)"
      unfolding consistent_def reconnect_armed_def by blast
    with fresh_timer[OF tb] have "t \<noteq> next_timer s" by auto
    with d invoked(2) show "\<exists>d. timers s' t = Some (d, ReconnectTimer)" by simp
  qed
  ultimately show ?thesis by (simp add: consistent_def)
next
  case (answered rid pr out)
  from \<open>consistent s\<close> answered(2) obtain d c where
    t: "timers s (timeout pr) = Some (d, RequestTimeout rid c (promise pr))"
    unfolding consistent_def pending_armed_def by blast
  from \<open>consistent s\<close> have ot: "one_timer s" by (simp add: consistent_def)
  note ar = armed_remove_request[OF ot t answered(4)]
  note st = is_settled_append[OF answered(5)]
  have arp: "armed s (promise pr)" using t unfolding armed_def by blast
  from \<open>consistent s\<close> answered have "timers_below s'" "one_timer s'" "pending_armed s'"
    unfolding consistent_def
    by (blast intro: timers_below_remove one_timer_remove pending_armed_answered)+
  moreover from \<open>consistent s\<close> answered arp have "armed_unsettled s'" "settled_below s'" "all_tracked s'"
    unfolding consistent_def by (auto simp: ar st armed_unsettled_def settled_below_def all_tracked_def)
  moreover from \<open>consistent s\<close> arp have "promise pr \<notin> fst ` set (settled s)"
    unfolding consistent_def armed_unsettled_def is_settled_def by blast
  with \<open>consistent s\<close> answered(5) have "distinct (map fst (settled s'))"
    unfolding consistent_def by simp
  moreover have "reconnect_armed s'"
    unfolding reconnect_armed_def
  proof (intro allI impI)
    fix u assume "reconnectTimer s' = Some u"
    with answered have "reconnectTimer s = Some u" by simp
    with \<open>consistent s\<close> obtain e where e: "timers s u = Some (e, ReconnectTimer)"
      unfolding consistent_def reconnect_armed_def by blast
    with t have "u \<noteq> timeout pr" by auto
    with e answered(4) show "\<exists>d. timers s' u = Some (d, ReconnectTimer)" by simp
  qed
  ultimately show ?thesis by (simp add: consistent_def)
next
  case (expired t d rid c p)
  from \<open>consistent s\<close> have ot: "one_timer s" by (simp add: consistent_def)
  note ar = armed_remove_request[OF ot expired(1) expired(4)]
  note st = is_settled_append[OF expired(5)]
  have arp: "armed s p" using expired(1) unfolding armed_def by blast
  from \<open>consistent s\<close> expired have "timers_below s'" "one_timer s'" "pending_armed s'"
    unfolding consistent_def
    by (blast intro: timers_below_remove one_timer_remove pending_armed_expired)+
  moreover from \<open>consistent s\<close> expired arp have "armed_unsettled s'" "settled_below s'" "all_tracked s'"
    unfolding consistent_def by (auto simp: ar st armed_unsettled_def settled_below_def all_tracked_def)
  moreover from \<open>consistent s\<close> arp have "p \<notin> fst ` set (settled s)"
    unfolding consistent_def armed_unsettled_def is_settled_def by blast
  with \<open>consistent s\<close> expired(5) have "distinct (map fst (settled s'))"
    unfolding consistent_def by simp
  moreover have "reconnect_armed s'"
    unfolding reconnect_armed_def
  proof (intro allI impI)
    fix u assume "reconnectTimer s' = Some u"
    with expired have "reconnectTimer s = Some u" by simp
    with \<open>consistent s\<close> obtain e where e: "timers s u = Some (e, ReconnectTimer)"
      unfolding consistent_def reconnect_armed_def by blast
    with expired(1) have "u \<noteq> t" by auto
    with e expired(4) show "\<exists>d. timers s' u = Some (d, ReconnectTimer)" by simp
  qed
  ultimately show ?thesis by (simp add: consistent_def)
next
  case (reconnect_fired t d)
  note ar = armed_remove_reconnect[OF reconnect_fired(1) reconnect_fired(4)]
  note st = is_settled_same[OF reconnect_fired(5)]
  from \<open>consistent s\<close> reconnect_fired have "timers_below s'" "one_timer s'" "pending_armed s'"
    unfolding consistent_def
    by (blast intro: timers_below_remove one_timer_remove pending_armed_reconnect_fired)+
  moreover from \<open>consistent s\<close> reconnect_fired have "armed_unsettled s'" "settled_below s'" "all_tracked s'"
    "distinct (map fst (settled s'))"
    unfolding consistent_def by (simp_all add: ar st armed_unsettled_def settled_below_def all_tracked_def)
  moreover from reconnect_fired have "reconnect_armed s'"
    unfolding reconnect_armed_def by simp
  ultimately show ?thesis by (simp add: consistent_def)
qed

lemma invoke_fields:
  "fst (invoke rid c a s) = next_promise s"
  "pending (snd (invoke rid c a s)) =
     (pending s)(rid \<mapsto> \<lparr> promise = next_promise s, timeout = next_timer s \<rparr>)"
  "timers (snd (invoke rid c a s)) =
     (timers s)(next_timer s \<mapsto> (now s + 60000, RequestTimeout rid c (next_promise s)))"
  "settled (snd (invoke rid c a s)) = settled s"
  "next_timer (snd (invoke rid c a s)) = next_timer s + 1"
  "next_promise (snd (invoke rid c a s)) = next_promise s + 1"
  "now (snd (invoke rid c a s)) = now s"
  "reconnectTimer (snd (invoke rid c a s)) = reconnectTimer s"
  by (simp_all add: invoke_def Let_def)

lemma core_step_invoke: "core_step A s (snd (invoke rid c a s))"
  by (rule core_step.invoked) (simp_all add: invoke_fields)

lemma core_step_scheduleReconnect:
  assumes "pending s1 = pending s" "timers s1 = timers s" "settled s1 = settled s"
    "next_timer s1 = next_timer s" "next_promise s1 = next_promise s" "now s1 = now s"
    "reconnectTimer s1 = reconnectTimer s"
  shows "core_step A s (scheduleReconnect s1)"
  using scheduleReconnect_timers[of s1]
proof
  assume "timers (scheduleReconnect s1) = timers s1 \<and>
          next_timer (scheduleReconnect s1) = next_timer s1 \<and>
          reconnectTimer (scheduleReconnect s1) = reconnectTimer s1"
  with assms show ?thesis by (intro core_step.keep) simp_all
next
  assume "timers (scheduleReconnect s1) =
            (timers s1)(next_timer s1 \<mapsto> (now s1 + backoff_delay (reconnectAttempt s1), ReconnectTimer)) \<and>
          next_timer (scheduleReconnect s1) = next_timer s1 + 1 \<and>
          reconnectTimer (scheduleReconnect s1) = Some (next_timer s1)"
  with assms show ?thesis by (intro core_step.new_reconnect) simp_all
qed

lemma core_step_auth:
  "core_step A s (connect_finally (validateAndConnect_resume res token (s\<lparr> fetching := rest \<rparr>)))"
proof (cases res)
  case AuthOk
  then show ?thesis by (intro core_step.keep) (simp_all add: validateAndConnect_resume_def)
next
  case AuthRejected
  then show ?thesis by (intro core_step.keep) (simp_all add: validateAndConnect_resume_def)
next
  case AuthUnreachable
  have "core_step A s (scheduleReconnect (setAuthError None (s\<lparr> fetching := rest \<rparr>)))"
    by (rule core_step_scheduleReconnect) simp_all
  then have "core_step A s (validateAndConnect_resume res token (s\<lparr> fetching := rest \<rparr>))"
    using AuthUnreachable by (simp add: validateAndConnect_resume_def)
  then show ?thesis
    by (cases rule: core_step.cases)
       (auto intro: core_step.intros simp: connect_finally_def)
qed

lemma core_step_settle_pending:
  "rid \<in> A \<Longrightarrow> pending s rid = Some pr \<Longrightarrow> core_step A s (settle_pending rid pr out s)"
  by (rule core_step.answered[where rid = rid and pr = pr and out = out])
     (simp_all add: settle_pending_def)

lemma core_step_fire_timer: "core_step A s (fire_timer t s)"
proof (cases "timers s t")
  case None
  then show ?thesis by (intro core_step.keep) (simp_all add: fire_timer_def)
next
  case (Some x)
  obtain d act where x: "x = (d, act)" by (cases x)
  show ?thesis
  proof (cases "d \<le> now s")
    case False
    with Some x show ?thesis by (intro core_step.keep) (simp_all add: fire_timer_def)
  next
    case True
    show ?thesis
    proof (cases act)
      case (RequestTimeout rid c p)
      with Some x True show ?thesis
        by (intro core_step.expired[where t = t and d = d and rid = rid and c = c and p = p])
           (simp_all add: fire_timer_def)
    next
      case ReconnectTimer
      with Some x True show ?thesis
        by (intro core_step.reconnect_fired[where t = t and d = d])
           (simp_all add: fire_timer_def)
    qed
  qed
qed

lemma core_step_step:
  assumes "\<not> is_message e"
  shows "core_step A s (step hb e s)"
proof (cases e)
  case (EInvoke rid c a)
  then show ?thesis by (simp add: core_step_invoke)
next
  case (EAuth res)
  then show ?thesis
    by (cases "fetching s") (simp_all add: core_step_auth core_step.keep)
next
  case (EMessage k parsed)
  with assms show ?thesis by simp
next
  case (EClose k)
  have "core_step A s (scheduleReconnect (setConnected False (s\<lparr> sockets := (sockets s)(k \<mapsto> CLOSED) \<rparr>)))"
    by (rule core_step_scheduleReconnect) simp_all
  with EClose show ?thesis by (auto simp: onclose_def intro: core_step.keep)
next
  case (ETimer t)
  then show ?thesis by (simp add: core_step_fire_timer)
qed (auto intro!: core_step.keep)

lemma core_step_do_call: "core_step A s (do_call c s)"
  by (cases c) (auto intro!: core_step.keep simp: core_step_invoke)

text \<open>
  Handling a message is a sequence of such steps: the handlers of an event message may
  each issue commands.
\<close>

lemma core_steps_onmessage:
  assumes "\<And>msg rid. parsed = Some msg \<Longrightarrow> is_answer msg rid \<Longrightarrow> rid \<in> A"
  shows "(core_step A)\<^sup>*\<^sup>* s (onmessage hb parsed s)"
proof (rule onmessage_preserves[where P = "(core_step A)\<^sup>*\<^sup>* s"])
  show "(core_step A)\<^sup>*\<^sup>* s s" by simp
  show "(core_step A)\<^sup>*\<^sup>* s (s\<lparr> hung := True \<rparr>)"
    by (rule r_into_rtranclp) (simp add: core_step.keep)
  show "(core_step A)\<^sup>*\<^sup>* s (x\<lparr> delivered := delivered x @ [(h, payload)] \<rparr>)"
    if "(core_step A)\<^sup>*\<^sup>* s x" for x h payload
    using that by (rule rtranclp.rtrancl_into_rtrancl) (simp add: core_step.keep)
  show "(core_step A)\<^sup>*\<^sup>* s (x\<lparr> console_errors := console_errors x @ [(ev, e)] \<rparr>)"
    if "(core_step A)\<^sup>*\<^sup>* s x" for x ev e
    using that by (rule rtranclp.rtrancl_into_rtrancl) (simp add: core_step.keep)
  show "(core_step A)\<^sup>*\<^sup>* s (do_call c x)" if "(core_step A)\<^sup>*\<^sup>* s x" for x c
    using that by (rule rtranclp.rtrancl_into_rtrancl) (rule core_step_do_call)
  show "(core_step A)\<^sup>*\<^sup>* s (settle_pending rid pr out s)"
    if "parsed = Some msg" "is_answer msg rid" "pending s rid = Some pr" for msg rid pr out
    by (rule r_into_rtranclp) (use that assms in \<open>auto intro: core_step_settle_pending\<close>)
qed

lemma message_cases:
  obtains (message) k parsed where "e = EMessage k parsed" | (other) "\<not> is_message e"
  by (cases e) auto

lemma core_steps_step: "(core_step {rid. answers rid e})\<^sup>*\<^sup>* s (step hb e s)"
proof (cases e rule: message_cases)
  case (message k parsed)
  have "(core_step {rid. answers rid e})\<^sup>*\<^sup>* s (onmessage hb parsed s)"
    by (rule core_steps_onmessage) (simp add: message)
  with message show ?thesis by simp
next
  case other
  then show ?thesis by (intro r_into_rtranclp core_step_step)
qed

lemma consistent_core_steps:
  "(core_step A)\<^sup>*\<^sup>* s s' \<Longrightarrow> consistent s \<Longrightarrow> consistent s'"
  by (induction rule: rtranclp_induct) (auto intro: consistent_core_step)

section \<open>Reachable states\<close>

lemma reachable_consistent: "reachable hb s \<Longrightarrow> consistent s"
  by (induction rule: reachable.induct)
     (auto intro: consistent_init consistent_core_steps core_steps_step)

lemma reachable_not_hung: "reachable hb s \<Longrightarrow> \<not> hung s"
  by (induction rule: reachable.induct) (simp_all add: init_def)

lemma reachable_run:
  "reachable hb s \<Longrightarrow> \<not> hung (run hb es s) \<Longrightarrow> reachable hb (run hb es s)"
proof (induction es arbitrary: s)
  case Nil
  then show ?case by simp
next
  case (Cons e es)
  from Cons.prems(1) have n: "\<not> hung s" by (rule reachable_not_hung)
  with Cons.prems(2) have h: "\<not> hung (run hb es (step hb e s))" by simp
  have "\<not> hung (step hb e s)"
  proof
    assume "hung (step hb e s)"
    then have "run hb es (step hb e s) = step hb e s" "hung (step hb e s)" by (simp_all add: run_hung)
    with h show False by simp
  qed
  with Cons.prems(1) have "reachable hb (step hb e s)" by (rule reachable.after)
  from Cons.IH[OF this h] n show ?case by simp
qed

lemma listeners_setAuthError [simp]: "listeners (setAuthError e s) = listeners s"
  by (simp add: setAuthError_def notifySubscribers_def)

lemma listeners_setConnected [simp]: "listeners (setConnected e s) = listeners s"
  by (simp add: setConnected_def notifySubscribers_def)

lemma listeners_connect [simp]: "listeners (connect s) = listeners s"
  by (simp add: connect_def validateAndConnect_start_def Let_def)

lemma listeners_scheduleReconnect [simp]: "listeners (scheduleReconnect s) = listeners s"
  by (simp add: scheduleReconnect_def Let_def)

lemma listeners_flush_queue: "flush_queue ds s = Some s' \<Longrightarrow> listeners s' = listeners s"
  by (induction ds arbitrary: s)
     (auto simp: socket_send_def split: option.splits ready_state.splits)

lemma listeners_onopen [simp]: "listeners (onopen s) = listeners s"
  by (auto simp: onopen_def Let_def dest: listeners_flush_queue split: option.splits)

lemma listeners_invoke [simp]: "listeners (snd (invoke rid c a s)) = listeners s"
  by (simp add: invoke_def Let_def)

lemma listeners_fire_timer [simp]: "listeners (fire_timer t s) = listeners s"
proof (cases "timers s t")
  case None
  then show ?thesis by (simp add: fire_timer_def)
next
  case (Some x)
  obtain d act where "x = (d, act)" by (cases x)
  with Some show ?thesis by (cases act) (simp_all add: fire_timer_def)
qed

lemma listeners_step:
  assumes "\<not> is_message e"
  shows "listeners (step hb e s) = listeners s \<or> (\<exists>ev h. e = EListen ev h \<or> e = EUnlisten ev h)"
proof (cases e)
  case (EAuth res)
  then show ?thesis
    by (cases "fetching s"; cases res)
       (simp_all add: validateAndConnect_resume_def connect_finally_def connectWs_def Let_def)
next
  case (EMessage k parsed)
  with assms show ?thesis by simp
qed (simp_all add: subscribe_def unsubscribe_def onclose_def)

lemma no_empty_listen: "no_empty_sets s \<Longrightarrow> no_empty_sets (listen ev h s)"
  by (auto simp: no_empty_sets_def listen_def Let_def)

lemma no_empty_unlisten: "no_empty_sets s \<Longrightarrow> no_empty_sets (unlisten ev h s)"
  by (auto simp: no_empty_sets_def unlisten_def Let_def split: option.splits list.splits)

lemma no_empty_do_call: "no_empty_sets s \<Longrightarrow> no_empty_sets (do_call c s)"
proof (cases c)
  case (CallInvoke rid command args)
  assume "no_empty_sets s"
  with CallInvoke show ?thesis by (simp add: no_empty_sets_def)
next
  case (CallListen ev h)
  assume "no_empty_sets s"
  with CallListen show ?thesis by (simp add: no_empty_listen)
next
  case (CallUnlisten ev h)
  assume "no_empty_sets s"
  with CallUnlisten show ?thesis by (simp add: no_empty_unlisten)
next
  case (CallSubscribe cb)
  assume "no_empty_sets s"
  with CallSubscribe show ?thesis by (simp add: no_empty_sets_def subscribe_def)
next
  case (CallUnsubscribe cb)
  assume "no_empty_sets s"
  with CallUnsubscribe show ?thesis by (simp add: no_empty_sets_def unsubscribe_def)
qed

lemma no_empty_step:
  assumes "no_empty_sets s"
  shows "no_empty_sets (step hb e s)"
proof (cases e rule: message_cases)
  case (message k parsed)
  have "no_empty_sets (onmessage hb parsed s)"
  proof (rule onmessage_preserves[where P = no_empty_sets])
    show "no_empty_sets (do_call c x)" if "no_empty_sets x" for x c
      using that by (rule no_empty_do_call)
  qed (use assms in \<open>simp_all add: no_empty_sets_def settle_pending_def\<close>)
  with message assms show ?thesis by simp
next
  case other
  from listeners_step[OF other, of hb s] show ?thesis
  proof
    assume "listeners (step hb e s) = listeners s"
    with assms show ?thesis by (simp add: no_empty_sets_def)
  next
    assume "\<exists>ev h. e = EListen ev h \<or> e = EUnlisten ev h"
    with assms show ?thesis by (auto intro: no_empty_listen no_empty_unlisten)
  qed
qed

lemma reachable_no_empty: "reachable hb s \<Longrightarrow> no_empty_sets s"
proof (induction rule: reachable.induct)
  case (fresh url_tok stored_tok)
  then show ?case by (simp add: no_empty_sets_def init_def)
next
  case (after s e)
  then show ?case by (simp add: no_empty_step)
qed

lemma unlisten_twice: "unlisten ev h (unlisten ev h s) = unlisten ev h s"
proof (cases "listeners s ev")
  case None
  then show ?thesis by (simp add: unlisten_def)
next
  case (Some hs)
  show ?thesis
  proof (cases "removeAll h hs")
    case Nil
    with Some show ?thesis by (simp add: unlisten_def)
  next
    case (Cons x xs)
    have "h \<notin> set (removeAll h hs)" by simp
    with Cons have "h \<notin> set (x # xs)" by simp
    then have "removeAll h (x # xs) = x # xs" by (rule removeAll_id)
    with Some Cons show ?thesis by (simp add: unlisten_def)
  qed
qed

section \<open>The connection life cycle is kept\<close>

lemma conn_ok_cong: "auth_view s' = auth_view s \<Longrightarrow> conn_ok s' = conn_ok s"
  by (simp add: auth_view_def conn_ok_def)

lemma auth_failed_cong: "auth_view s' = auth_view s \<Longrightarrow> auth_failed s' = auth_failed s"
  by (simp add: auth_view_def auth_failed_def)

lemma auth_view_setConnected [simp]: "auth_view (setConnected v s) = auth_view s"
  by (simp add: auth_view_def setConnected_def notifySubscribers_def)

lemma auth_view_scheduleReconnect [simp]: "auth_view (scheduleReconnect s) = auth_view s"
  by (simp add: auth_view_def scheduleReconnect_def Let_def)

lemma auth_view_flush_queue: "flush_queue ds s = Some s' \<Longrightarrow> auth_view s' = auth_view s"
  by (induction ds arbitrary: s)
     (auto simp: auth_view_def socket_send_def split: option.splits ready_state.splits)

lemma auth_view_onopen [simp]: "auth_view (onopen s) = auth_view s"
proof -
  let ?s1 = "(setConnected True s)\<lparr> reconnectAttempt := 0 \<rparr>"
  have v1: "auth_view ?s1 = auth_view s"
    by (simp add: auth_view_def setConnected_def notifySubscribers_def)
  show ?thesis
  proof (cases "flush_queue (queue ?s1) ?s1")
    case None
    with v1 show ?thesis by (simp add: onopen_def Let_def)
  next
    case (Some s2)
    from auth_view_flush_queue[OF Some] v1 have "auth_view (s2\<lparr> queue := [] \<rparr>) = auth_view s"
      by (simp add: auth_view_def)
    with Some show ?thesis by (simp add: onopen_def Let_def)
  qed
qed

lemma auth_view_onclose [simp]: "auth_view (onclose s) = auth_view s"
  by (simp add: onclose_def)

lemma conn_ok_connect: "conn_ok s \<Longrightarrow> conn_ok (connect s)"
  unfolding conn_ok_def connect_def Let_def ws_readyState_def validateAndConnect_start_def
    setAuthError_def notifySubscribers_def
  by (auto split: option.splits simp: le_Suc_eq)

lemma conn_ok_connect_cong: "conn_ok s \<Longrightarrow> auth_view s' = auth_view s \<Longrightarrow> conn_ok (connect s')"
  using conn_ok_cong conn_ok_connect by blast

lemma auth_view_invoke:
  "auth_view (snd (invoke rid c a s)) = auth_view s \<or>
   (\<exists>s'. auth_view s' = auth_view s \<and> snd (invoke rid c a s) = connect s')"
proof (cases "ws_readyState s = Some OPEN")
  case True
  then have "snd (invoke rid c a s) =
      s\<lparr> next_promise := next_promise s + 1,
         timers := (timers s)(next_timer s \<mapsto> (now s + 60000, RequestTimeout rid c (next_promise s))),
         next_timer := next_timer s + 1,
         pending := (pending s)(rid \<mapsto> \<lparr> promise = next_promise s, timeout = next_timer s \<rparr>),
         sent := sent s @ [(the (ws s), invoke_frame rid c a)] \<rparr>"
    by (auto simp: invoke_def Let_def ws_readyState_def split: option.splits)
  then show ?thesis by (simp add: auth_view_def)
next
  case False
  let ?d = "invoke_frame rid c a"
  let ?s' = "s\<lparr> next_promise := next_promise s + 1,
      timers := (timers s)(next_timer s \<mapsto> (now s + 60000, RequestTimeout rid c (next_promise s))),
      next_timer := next_timer s + 1,
      pending := (pending s)(rid \<mapsto> \<lparr> promise = next_promise s, timeout = next_timer s \<rparr>),
      queue := queue s @ [?d] \<rparr>"
  have "auth_view ?s' = auth_view s" by (simp add: auth_view_def)
  moreover from False have "snd (invoke rid c a s) = connect ?s'"
    by (auto simp: invoke_def Let_def ws_readyState_def split: option.splits)
  ultimately show ?thesis by blast
qed

lemma auth_view_listen: "\<exists>s'. auth_view s' = auth_view s \<and> listen ev h s = connect s'"
  by (rule exI[where x = "(let s1 = (if listeners s ev = None then s\<lparr> listeners := (listeners s)(ev \<mapsto> []) \<rparr> else s);
          hs = the (listeners s1 ev)
      in s1\<lparr> listeners := (listeners s1)(ev \<mapsto> (if h \<in> set hs then hs else hs @ [h])) \<rparr>)"])
     (simp add: listen_def Let_def auth_view_def)

lemma auth_view_unlisten [simp]: "auth_view (unlisten ev h s) = auth_view s"
  by (simp add: unlisten_def Let_def auth_view_def split: option.splits list.splits)

lemma auth_view_fire_timer:
  "auth_view (fire_timer t s) = auth_view s \<or>
   (\<exists>s'. auth_view s' = auth_view s \<and> fire_timer t s = connect s')"
proof (cases "timers s t")
  case None
  then show ?thesis by (simp add: fire_timer_def)
next
  case (Some x)
  obtain d act where x: "x = (d, act)" by (cases x)
  show ?thesis
  proof (cases "d \<le> now s")
    case False
    with Some x show ?thesis by (simp add: fire_timer_def)
  next
    case True
    show ?thesis
    proof (cases act)
      case (RequestTimeout rid c p)
      with Some x True show ?thesis by (simp add: fire_timer_def auth_view_def)
    next
      case ReconnectTimer
      let ?s' = "s\<lparr> timers := (timers s)(t := None), reconnectTimer := None \<rparr>"
      have "auth_view ?s' = auth_view s" by (simp add: auth_view_def)
      moreover from Some x True ReconnectTimer have "fire_timer t s = connect ?s'"
        by (simp add: fire_timer_def)
      ultimately show ?thesis by blast
    qed
  qed
qed

lemma conn_ok_auth:
  assumes "conn_ok s" "fetching s = token # rest"
  shows "conn_ok (connect_finally (validateAndConnect_resume res token (s\<lparr> fetching := rest \<rparr>)))"
proof -
  from assms have rest: "rest = []" by (simp add: conn_ok_def)
  show ?thesis
  proof (cases res)
    case AuthOk
    with assms rest show ?thesis
      unfolding conn_ok_def validateAndConnect_resume_def connect_finally_def connectWs_def
        setAuthError_def notifySubscribers_def Let_def
      by (auto simp: less_Suc_eq)
  next
    case AuthRejected
    with assms rest show ?thesis
      unfolding conn_ok_def validateAndConnect_resume_def connect_finally_def
        setAuthError_def notifySubscribers_def
      by auto
  next
    case AuthUnreachable
    let ?s1 = "setAuthError None (s\<lparr> fetching := rest \<rparr>)"
    have "auth_view (connect_finally (scheduleReconnect ?s1)) = auth_view (connect_finally ?s1)"
      using auth_view_scheduleReconnect[of ?s1] by (simp add: auth_view_def connect_finally_def)
    moreover from assms rest have "conn_ok (connect_finally ?s1)"
      unfolding conn_ok_def connect_finally_def setAuthError_def notifySubscribers_def by auto
    ultimately have "conn_ok (connect_finally (scheduleReconnect ?s1))"
      using conn_ok_cong by blast
    with AuthUnreachable show ?thesis by (simp add: validateAndConnect_resume_def)
  qed
qed

lemma conn_ok_same: "conn_ok s \<Longrightarrow> auth_view s' = auth_view s \<Longrightarrow> conn_ok s'"
  using conn_ok_cong by blast

lemma conn_ok_do_call:
  assumes ok: "conn_ok s"
  shows "conn_ok (do_call c s)"
proof (cases c)
  case (CallInvoke rid cmd a)
  from auth_view_invoke[of rid cmd a s] show ?thesis
  proof
    assume "auth_view (snd (invoke rid cmd a s)) = auth_view s"
    with ok CallInvoke show ?thesis by (simp add: conn_ok_same)
  next
    assume "\<exists>s'. auth_view s' = auth_view s \<and> snd (invoke rid cmd a s) = connect s'"
    then obtain s' where "auth_view s' = auth_view s" "snd (invoke rid cmd a s) = connect s'"
      by blast
    with ok CallInvoke show ?thesis by (simp add: conn_ok_connect_cong)
  qed
next
  case (CallListen ev h)
  from auth_view_listen[of s ev h] obtain s' where
    "auth_view s' = auth_view s" "listen ev h s = connect s'" by blast
  with ok CallListen show ?thesis by (simp add: conn_ok_connect_cong)
next
  case (CallUnlisten ev h)
  with ok show ?thesis by (simp add: conn_ok_same)
next
  case (CallSubscribe cb)
  with ok show ?thesis by (simp add: conn_ok_def subscribe_def)
next
  case (CallUnsubscribe cb)
  with ok show ?thesis by (simp add: conn_ok_def unsubscribe_def)
qed

lemma auth_view_logs [simp]:
  "auth_view (s\<lparr> delivered := d \<rparr>) = auth_view s"
  "auth_view (s\<lparr> console_errors := ce \<rparr>) = auth_view s"
  "auth_view (s\<lparr> hung := b \<rparr>) = auth_view s"
  "auth_view (settle_pending rid pr out s) = auth_view s"
  by (simp_all add: auth_view_def settle_pending_def)

lemma conn_ok_onmessage:
  assumes "conn_ok s"
  shows "conn_ok (onmessage hb parsed s)"
proof (rule onmessage_preserves[where P = conn_ok])
  show "conn_ok (do_call c x)" if "conn_ok x" for x c
    using that by (rule conn_ok_do_call)
qed (use assms in \<open>auto intro: conn_ok_same\<close>)

lemma conn_ok_step:
  assumes ok: "conn_ok s"
  shows "conn_ok (step hb e s)"
proof (cases e)
  case (EInvoke rid c a)
  with conn_ok_do_call[OF ok, of "CallInvoke rid c a"] show ?thesis by simp
next
  case (EListen ev h)
  with conn_ok_do_call[OF ok, of "CallListen ev h"] show ?thesis by simp
next
  case (EUnlisten ev h)
  with conn_ok_do_call[OF ok, of "CallUnlisten ev h"] show ?thesis by simp
next
  case (ESubscribe cb)
  with conn_ok_do_call[OF ok, of "CallSubscribe cb"] show ?thesis by simp
next
  case (EUnsubscribe cb)
  with conn_ok_do_call[OF ok, of "CallUnsubscribe cb"] show ?thesis by simp
next
  case EConnect
  with ok show ?thesis by (simp add: conn_ok_connect)
next
  case (EAuth res)
  with ok show ?thesis by (cases "fetching s") (simp_all add: conn_ok_auth)
next
  case (EOpen k)
  show ?thesis
  proof (cases "sockets s k = Some CONNECTING")
    case False
    with ok EOpen show ?thesis by simp
  next
    case True
    let ?s0 = "s\<lparr> sockets := (sockets s)(k \<mapsto> OPEN) \<rparr>"
    from ok True have wsk: "ws s = Some k" unfolding conn_ok_def by blast
    have only: "ka = k" if "sockets s ka = Some CONNECTING \<or> sockets s ka = Some OPEN" for ka
    proof -
      from ok that have "ws s = Some ka" unfolding conn_ok_def by blast
      with wsk show ?thesis by simp
    qed
    from ok True have "conn_ok ?s0" unfolding conn_ok_def using only by auto
    then have "conn_ok (onopen ?s0)" by (rule conn_ok_same) simp
    with True EOpen show ?thesis by simp
  qed
next
  case (EMessage k parsed)
  with ok conn_ok_onmessage[OF ok, of hb parsed] show ?thesis by simp
next
  case (EClosing k)
  show ?thesis
  proof (cases "sockets s k = Some CONNECTING \<or> sockets s k = Some OPEN")
    case False
    with ok EClosing show ?thesis by simp
  next
    case True
    with ok have "conn_ok (s\<lparr> sockets := (sockets s)(k \<mapsto> CLOSING) \<rparr>)"
      unfolding conn_ok_def by auto
    with True EClosing show ?thesis by simp
  qed
next
  case (EClose k)
  show ?thesis
  proof (cases "sockets s k = None \<or> sockets s k = Some CLOSED")
    case True
    with ok EClose show ?thesis by simp
  next
    case False
    let ?s0 = "s\<lparr> sockets := (sockets s)(k \<mapsto> CLOSED) \<rparr>"
    from ok False have "conn_ok ?s0" unfolding conn_ok_def by auto
    then have "conn_ok (onclose ?s0)" by (rule conn_ok_same) simp
    with False EClose show ?thesis by auto
  qed
next
  case (EError k)
  with ok show ?thesis by simp
next
  case (ETimer t)
  from auth_view_fire_timer[of t s] show ?thesis
  proof
    assume "auth_view (fire_timer t s) = auth_view s"
    with ok ETimer show ?thesis by (simp add: conn_ok_same)
  next
    assume "\<exists>s'. auth_view s' = auth_view s \<and> fire_timer t s = connect s'"
    then obtain s' where "auth_view s' = auth_view s" "fire_timer t s = connect s'" by blast
    with ok ETimer show ?thesis by (simp add: conn_ok_connect_cong)
  qed
next
  case (EAdvance dt)
  with ok show ?thesis by (simp add: conn_ok_def)
qed

lemma reachable_conn_ok: "reachable hb s \<Longrightarrow> conn_ok s"
proof (induction rule: reachable.induct)
  case (fresh url_tok stored_tok)
  show ?case by (simp add: conn_ok_def init_def)
next
  case (after s e)
  then show ?case by (simp add: conn_ok_step)
qed

lemma scheduleReconnect_auth_error: "truthy_str (authError s) \<Longrightarrow> scheduleReconnect s = s"
  by (simp add: scheduleReconnect_def)

lemma auth_failed_same: "auth_failed s \<Longrightarrow> auth_view s' = auth_view s \<Longrightarrow> auth_failed s'"
  using auth_failed_cong by blast

lemma auth_failed_connect: "auth_failed s \<Longrightarrow> auth_failed (connect s)"
  unfolding auth_failed_def connect_def Let_def setAuthError_def notifySubscribers_def
    validateAndConnect_start_def
  by auto

lemma auth_failed_connect_cong:
  "auth_failed s \<Longrightarrow> auth_view s' = auth_view s \<Longrightarrow> auth_failed (connect s')"
  using auth_failed_same auth_failed_connect by blast

lemma auth_failed_do_call:
  assumes ok: "auth_failed s"
  shows "auth_failed (do_call c s)"
proof (cases c)
  case (CallInvoke rid cmd a)
  from auth_view_invoke[of rid cmd a s] show ?thesis
  proof
    assume "auth_view (snd (invoke rid cmd a s)) = auth_view s"
    with ok CallInvoke show ?thesis by (simp add: auth_failed_same)
  next
    assume "\<exists>s'. auth_view s' = auth_view s \<and> snd (invoke rid cmd a s) = connect s'"
    then obtain s' where "auth_view s' = auth_view s" "snd (invoke rid cmd a s) = connect s'"
      by blast
    with ok CallInvoke show ?thesis by (simp add: auth_failed_connect_cong)
  qed
next
  case (CallListen ev h)
  from auth_view_listen[of s ev h] obtain s' where
    "auth_view s' = auth_view s" "listen ev h s = connect s'" by blast
  with ok CallListen show ?thesis by (simp add: auth_failed_connect_cong)
next
  case (CallUnlisten ev h)
  with ok show ?thesis by (simp add: auth_failed_same)
next
  case (CallSubscribe cb)
  with ok show ?thesis by (simp add: auth_failed_def subscribe_def)
next
  case (CallUnsubscribe cb)
  with ok show ?thesis by (simp add: auth_failed_def unsubscribe_def)
qed

lemma auth_failed_onmessage:
  assumes "auth_failed s"
  shows "auth_failed (onmessage hb parsed s)"
proof (rule onmessage_preserves[where P = auth_failed])
  show "auth_failed (do_call c x)" if "auth_failed x" for x c
    using that by (rule auth_failed_do_call)
qed (use assms in \<open>auto intro: auth_failed_same\<close>)

lemma auth_failed_step:
  assumes ok: "auth_failed s"
  shows "auth_failed (step hb e s)"
proof (cases e)
  case (EInvoke rid c a)
  with auth_failed_do_call[OF ok, of "CallInvoke rid c a"] show ?thesis by simp
next
  case (EListen ev h)
  with auth_failed_do_call[OF ok, of "CallListen ev h"] show ?thesis by simp
next
  case (EUnlisten ev h)
  with auth_failed_do_call[OF ok, of "CallUnlisten ev h"] show ?thesis by simp
next
  case (ESubscribe cb)
  with auth_failed_do_call[OF ok, of "CallSubscribe cb"] show ?thesis by simp
next
  case (EUnsubscribe cb)
  with auth_failed_do_call[OF ok, of "CallUnsubscribe cb"] show ?thesis by simp
next
  case EConnect
  with ok show ?thesis by (simp add: auth_failed_connect)
next
  case (EAuth res)
  with ok show ?thesis by (simp add: auth_failed_def)
next
  case (EOpen k)
  with ok show ?thesis by (simp add: auth_failed_def)
next
  case (EMessage k parsed)
  with ok auth_failed_onmessage[OF ok, of hb parsed] show ?thesis by simp
next
  case (EClosing k)
  with ok show ?thesis by (auto simp: auth_failed_def)
next
  case (EClose k)
  show ?thesis
  proof (cases "sockets s k = None \<or> sockets s k = Some CLOSED")
    case True
    with ok EClose show ?thesis by simp
  next
    case False
    let ?s0 = "s\<lparr> sockets := (sockets s)(k \<mapsto> CLOSED) \<rparr>"
    from ok have "auth_failed ?s0" unfolding auth_failed_def by auto
    then have "auth_failed (onclose ?s0)" by (rule auth_failed_same) simp
    with False EClose show ?thesis by auto
  qed
next
  case (EError k)
  with ok show ?thesis by simp
next
  case (ETimer t)
  from auth_view_fire_timer[of t s] show ?thesis
  proof
    assume "auth_view (fire_timer t s) = auth_view s"
    with ok ETimer show ?thesis by (simp add: auth_failed_same)
  next
    assume "\<exists>s'. auth_view s' = auth_view s \<and> fire_timer t s = connect s'"
    then obtain s' where "auth_view s' = auth_view s" "fire_timer t s = connect s'" by blast
    with ok ETimer show ?thesis by (simp add: auth_failed_connect_cong)
  qed
next
  case (EAdvance dt)
  with ok show ?thesis by (simp add: auth_failed_def)
qed

lemma no_new_reconnect_same: "timers s' = timers s \<Longrightarrow> no_new_reconnect s s'"
  by (simp add: no_new_reconnect_def)

lemma no_new_reconnect_remove: "timers s' = (timers s)(x := None) \<Longrightarrow> no_new_reconnect s s'"
  by (simp add: no_new_reconnect_def split: if_splits)

lemma no_new_reconnect_request:
  "timers s' = (timers s)(x \<mapsto> (d, RequestTimeout rid c p)) \<Longrightarrow> no_new_reconnect s s'"
  by (simp add: no_new_reconnect_def split: if_splits)

lemma no_new_reconnect_trans:
  "no_new_reconnect s s1 \<Longrightarrow> no_new_reconnect s1 s2 \<Longrightarrow> no_new_reconnect s s2"
  by (simp add: no_new_reconnect_def)

lemma no_new_reconnect_do_call: "no_new_reconnect s (do_call c s)"
proof (cases c)
  case (CallInvoke rid cmd a)
  have "no_new_reconnect s (snd (invoke rid cmd a s))"
    by (rule no_new_reconnect_request) (simp add: invoke_fields)
  with CallInvoke show ?thesis by simp
qed (simp_all add: no_new_reconnect_same)

lemma no_new_reconnect_onmessage: "no_new_reconnect s (onmessage hb parsed s)"
proof (rule onmessage_preserves[where P = "no_new_reconnect s"])
  show "no_new_reconnect s s" by (simp add: no_new_reconnect_same)
  show "no_new_reconnect s (s\<lparr> hung := True \<rparr>)" by (simp add: no_new_reconnect_same)
  show "no_new_reconnect s (x\<lparr> delivered := delivered x @ [(h, payload)] \<rparr>)"
    if "no_new_reconnect s x" for x h payload
    using that by (simp add: no_new_reconnect_def)
  show "no_new_reconnect s (x\<lparr> console_errors := console_errors x @ [(ev, e)] \<rparr>)"
    if "no_new_reconnect s x" for x ev e
    using that by (simp add: no_new_reconnect_def)
  show "no_new_reconnect s (do_call c x)" if "no_new_reconnect s x" for x c
    using that no_new_reconnect_do_call[of x c] by (rule no_new_reconnect_trans)
  show "no_new_reconnect s (settle_pending rid pr out s)" for rid pr out
    by (rule no_new_reconnect_remove[where x = "timeout pr"]) (simp add: settle_pending_def)
qed

lemma timers_fire_timer:
  "timers (fire_timer t s) = timers s \<or> timers (fire_timer t s) = (timers s)(t := None)"
proof (cases "timers s t")
  case None
  then show ?thesis by (simp add: fire_timer_def)
next
  case (Some x)
  obtain d act where "x = (d, act)" by (cases x)
  with Some show ?thesis by (cases act) (simp_all add: fire_timer_def)
qed

lemma next_sock_connect [simp]: "next_sock (connect s) = next_sock s"
  by (simp add: connect_def Let_def validateAndConnect_start_def setAuthError_def
      notifySubscribers_def)

lemma view_next_sock: "auth_view s' = auth_view s \<Longrightarrow> next_sock s' = next_sock s"
  by (simp add: auth_view_def)

lemma next_sock_do_call [simp]: "next_sock (do_call c s) = next_sock s"
proof (cases c)
  case (CallInvoke rid cmd a)
  from auth_view_invoke[of rid cmd a s] have "next_sock (snd (invoke rid cmd a s)) = next_sock s"
    by (auto dest: view_next_sock)
  with CallInvoke show ?thesis by simp
next
  case (CallListen ev h)
  from auth_view_listen[of s ev h] have "next_sock (listen ev h s) = next_sock s"
    by (auto dest: view_next_sock)
  with CallListen show ?thesis by simp
next
  case (CallUnlisten ev h)
  then show ?thesis using view_next_sock[OF auth_view_unlisten] by simp
qed (simp_all add: subscribe_def unsubscribe_def)

lemma next_sock_onmessage: "next_sock (onmessage hb parsed s) = next_sock s"
  by (rule onmessage_preserves[where P = "\<lambda>x. next_sock x = next_sock s"])
     (simp_all add: settle_pending_def)

lemma next_sock_step:
  assumes "fetching s = []"
  shows "next_sock (step hb e s) = next_sock s"
proof (cases e)
  case (EInvoke rid c a)
  with next_sock_do_call[of "CallInvoke rid c a" s] show ?thesis by simp
next
  case (EListen ev h)
  with next_sock_do_call[of "CallListen ev h" s] show ?thesis by simp
next
  case (EUnlisten ev h)
  then show ?thesis using view_next_sock[OF auth_view_unlisten] by simp
next
  case (EOpen k)
  then show ?thesis using view_next_sock[OF auth_view_onopen] by simp
next
  case (EMessage k parsed)
  then show ?thesis by (simp add: next_sock_onmessage)
next
  case (EClose k)
  then show ?thesis using view_next_sock[OF auth_view_onclose] by simp
next
  case (ETimer t)
  from auth_view_fire_timer[of t s] have "next_sock (fire_timer t s) = next_sock s"
    by (auto dest: view_next_sock)
  with ETimer show ?thesis by simp
qed (use assms in \<open>simp_all add: subscribe_def unsubscribe_def\<close>)

lemma auth_failed_no_new_reconnect:
  assumes ok: "auth_failed s"
  shows "no_new_reconnect s (step hb e s)"
proof (cases e)
  case (EInvoke rid c a)
  have "no_new_reconnect s (snd (invoke rid c a s))"
    by (rule no_new_reconnect_request) (simp add: invoke_fields)
  with EInvoke show ?thesis by simp
next
  case (EMessage k parsed)
  then show ?thesis by (simp add: no_new_reconnect_onmessage no_new_reconnect_same)
next
  case (EClose k)
  from ok have "truthy_str (authError (setConnected False (s\<lparr> sockets := (sockets s)(k \<mapsto> CLOSED) \<rparr>)))"
    by (simp add: auth_failed_def setConnected_def notifySubscribers_def)
  then have "timers (onclose (s\<lparr> sockets := (sockets s)(k \<mapsto> CLOSED) \<rparr>)) = timers s"
    by (simp add: onclose_def scheduleReconnect_auth_error)
  with EClose show ?thesis by (auto simp: no_new_reconnect_same)
next
  case (ETimer t)
  with timers_fire_timer[of t s] show ?thesis
    by (auto simp: no_new_reconnect_same no_new_reconnect_remove)
next
  case (EAuth res)
  with ok show ?thesis by (simp add: auth_failed_def no_new_reconnect_same)
qed (simp_all add: no_new_reconnect_same subscribe_def unsubscribe_def)

lemma auth_failed_run:
  assumes "auth_failed s"
  shows "auth_failed (run hb es s) \<and> no_new_reconnect s (run hb es s) \<and>
         next_sock (run hb es s) = next_sock s"
  using assms
proof (induction es arbitrary: s)
  case Nil
  then show ?case by (simp add: no_new_reconnect_same)
next
  case (Cons e es)
  let ?s1 = "step hb e s"
  from Cons.prems have k1: "auth_failed ?s1" by (rule auth_failed_step)
  from Cons.prems have n1: "no_new_reconnect s ?s1" by (rule auth_failed_no_new_reconnect)
  from Cons.prems have x1: "next_sock ?s1 = next_sock s"
    by (intro next_sock_step) (simp add: auth_failed_def)
  from Cons.IH[OF k1] n1 x1 Cons.prems show ?case
    by (auto intro: no_new_reconnect_trans no_new_reconnect_same)
qed

lemma rejected_auth_failed:
  assumes "conn_ok s" "fetching s \<noteq> []"
  shows "auth_failed (step hb (EAuth AuthRejected) s)"
proof -
  from assms obtain token where f: "fetching s = [token]"
    by (cases "fetching s") (auto simp: conn_ok_def)
  with assms(1) show ?thesis
    unfolding auth_failed_def conn_ok_def
    by (simp add: validateAndConnect_resume_def connect_finally_def setAuthError_def
        notifySubscribers_def)
qed

section \<open>Fan-out and flushing\<close>

lemma handleMessage_event:
  assumes "get_prop msg ''type'' = Some (JStr ''event'')" "get_prop msg ''event'' = Some (JStr ev)"
    "ev \<noteq> []" "listeners s ev = Some hs"
  shows "handleMessage hb msg s = Some (fan_out hb ev (get_prop msg ''payload'') hs s)"
proof -
  from assms(1) have "msg \<noteq> JNull" by auto
  with assms show ?thesis by (simp add: handleMessage_def)
qed

lemma flush_queue_open:
  assumes "ws s = Some k" "sockets s k = Some OPEN"
  shows "flush_queue ds s = Some (s\<lparr> sent := sent s @ map (Pair k) ds \<rparr>)"
  using assms
proof (induction ds arbitrary: s)
  case Nil
  then show ?case by simp
next
  case (Cons d ds)
  let ?s1 = "s\<lparr> sent := sent s @ [(k, d)] \<rparr>"
  from Cons.prems have "flush_queue (d # ds) s = flush_queue ds ?s1"
    by (simp add: socket_send_def)
  also from Cons.prems have "\<dots> = Some (?s1\<lparr> sent := sent ?s1 @ map (Pair k) ds \<rparr>)"
    by (intro Cons.IH) simp_all
  finally show ?case by simp
qed

lemma reachable_run_init:
  "\<not> hung (run hb es (init u t)) \<Longrightarrow> reachable hb (run hb es (init u t))"
  by (rule reachable_run) (rule reachable.fresh)

lemma reachable_step_init:
  assumes "\<not> is_message e"
  shows "reachable hb (step hb e (init u t))"
proof (rule reachable.after)
  show "reachable hb (init u t)" by (rule reachable.fresh)
  from assms show "\<not> hung (step hb e (init u t))" by (simp add: hung_step init_def)
qed

lemma reachable_run_quiet:
  "\<forall>e \<in> set es. \<not> is_message e \<Longrightarrow> reachable hb (run hb es (init u t))"
  by (rule reachable_run_init) (simp add: run_not_hung init_def)

section \<open>What the fan-out loop delivers\<close>

lemma listeners_listen:
  "listeners (listen ev h s) =
     (listeners s)(ev \<mapsto> (case listeners s ev of None \<Rightarrow> [h]
                            | Some hs \<Rightarrow> if h \<in> set hs then hs else hs @ [h]))"
  by (auto simp: listen_def Let_def fun_upd_idem split: option.splits)

lemma listeners_unlisten:
  "listeners (unlisten ev h s) =
     (case listeners s ev of
        None \<Rightarrow> listeners s
      | Some hs \<Rightarrow> if removeAll h hs = [] then (listeners s)(ev := None)
                   else (listeners s)(ev \<mapsto> removeAll h hs))"
  by (auto simp: unlisten_def Let_def split: option.splits list.splits)

lemma listeners_subscribe [simp]:
  "listeners (subscribe cb s) = listeners s" "listeners (unsubscribe cb s) = listeners s"
  by (simp_all add: subscribe_def unsubscribe_def)

lemma delivered_methods [simp]:
  "delivered (connect s) = delivered s" "delivered (snd (invoke rid c a s)) = delivered s"
  "delivered (listen ev h s) = delivered s" "delivered (unlisten ev h s) = delivered s"
  "delivered (subscribe cb s) = delivered s" "delivered (unsubscribe cb s) = delivered s"
  by (simp_all add: connect_def validateAndConnect_start_def setAuthError_def notifySubscribers_def
      invoke_def listen_def unlisten_def subscribe_def unsubscribe_def Let_def
      split: option.splits list.splits)

lemma console_errors_methods [simp]:
  "console_errors (connect s) = console_errors s"
  "console_errors (snd (invoke rid c a s)) = console_errors s"
  "console_errors (listen ev h s) = console_errors s"
  "console_errors (unlisten ev h s) = console_errors s"
  "console_errors (subscribe cb s) = console_errors s"
  "console_errors (unsubscribe cb s) = console_errors s"
  by (simp_all add: connect_def validateAndConnect_start_def setAuthError_def notifySubscribers_def
      invoke_def listen_def unlisten_def subscribe_def unsubscribe_def Let_def
      split: option.splits list.splits)

lemma delivered_do_call [simp]: "delivered (do_call c s) = delivered s"
  by (cases c) simp_all

lemma delivered_do_calls [simp]: "delivered (snd (do_calls ev cs r)) = delivered (snd r)"
  by (induction cs arbitrary: r) simp_all

lemma hung_do_calls [simp]: "hung (snd (do_calls ev cs r)) = hung (snd r)"
  by (induction cs arbitrary: r) simp_all

text \<open>Calls that leave the handlers of the event alone leave the iterator alone.\<close>

lemma call_untouched:
  assumes "\<not> touches ev c"
  shows "call_iter ev c s it = it \<and> listeners (do_call c s) ev = listeners s ev"
proof (cases c)
  case (CallListen ev' h)
  with assms have "ev' \<noteq> ev" by simp
  with CallListen show ?thesis by (cases it) (simp_all add: listeners_listen)
next
  case (CallUnlisten ev' h)
  with assms have "ev' \<noteq> ev" by simp
  with CallUnlisten show ?thesis
    by (cases it) (simp_all add: listeners_unlisten split: option.splits)
qed (cases it; simp)+

lemma do_calls_untouched:
  assumes "\<forall>c \<in> set cs. \<not> touches ev c"
  shows "fst (do_calls ev cs r) = fst r \<and>
         listeners (snd (do_calls ev cs r)) ev = listeners (snd r) ev"
  using assms
proof (induction cs arbitrary: r)
  case Nil
  then show ?case by simp
next
  case (Cons c cs)
  from Cons.prems have "\<not> touches ev c" by simp
  from call_untouched[OF this, of "snd r" "fst r"] Cons.IH[of "(call_iter ev c (snd r) (fst r), do_call c (snd r))"]
    Cons.prems
  show ?case by simp
qed

text \<open>
  When no handler registers or unregisters a handler of the event while the loop runs,
  the loop returns, and it has called the handlers it was started on, each once, in
  order, whichever of them threw.
\<close>

lemma fan_loop_untouched:
  assumes "\<forall>h x. \<forall>c \<in> set (fst (hb h payload x)). \<not> touches ev c"
  shows "\<exists>s'. fan_loop hb ev payload (Some hs) s = Some s' \<and>
              delivered s' = delivered s @ map (\<lambda>h. (h, payload)) hs \<and>
              listeners s' ev = listeners s ev \<and> hung s' = hung s"
proof (induction hs arbitrary: s)
  case Nil
  show ?case by simp
next
  case (Cons h hs)
  let ?s1 = "s\<lparr> delivered := delivered s @ [(h, payload)] \<rparr>"
  let ?r = "do_calls ev (fst (hb h payload ?s1)) (Some hs, ?s1)"
  let ?s2 = "(case snd (hb h payload ?s1) of
                None \<Rightarrow> snd ?r
              | Some e \<Rightarrow> (snd ?r)\<lparr> console_errors := console_errors (snd ?r) @ [(ev, e)] \<rparr>)"
  from assms have "\<forall>c \<in> set (fst (hb h payload ?s1)). \<not> touches ev c" by blast
  from do_calls_untouched[OF this, of "(Some hs, ?s1)"] have
    r: "fst ?r = Some hs" "listeners (snd ?r) ev = listeners s ev" by simp_all
  have s2: "delivered ?s2 = delivered s @ [(h, payload)]" "listeners ?s2 ev = listeners s ev"
    "hung ?s2 = hung s"
    using r(2) by (simp_all split: option.splits)
  from Cons.IH[of ?s2] obtain s' where
    s': "fan_loop hb ev payload (Some hs) ?s2 = Some s'"
      "delivered s' = delivered ?s2 @ map (\<lambda>h. (h, payload)) hs"
      "listeners s' ev = listeners ?s2 ev" "hung s' = hung ?s2"
    by blast
  have "fan_loop hb ev payload (Some (h # hs)) s = fan_loop hb ev payload (fst ?r) ?s2"
    by (simp add: fan_loop_Cons Let_def)
  with r(1) s'(1) have "fan_loop hb ev payload (Some (h # hs)) s = Some s'" by simp
  with s'(2-) s2 show ?case by simp
qed

text \<open>
  When no handler registers a handler of the event while the loop runs, the iterator
  never has more left than before, so the loop returns.
\<close>

lemma call_shrinks:
  assumes "\<And>h. c \<noteq> CallListen ev h"
  shows "iter_left (call_iter ev c s it) \<le> iter_left it"
proof (cases it)
  case None
  then show ?thesis by (cases c) (simp_all add: iter_left_def)
next
  case (Some todo)
  show ?thesis
  proof (cases c)
    case (CallListen ev' h)
    with assms have "ev' \<noteq> ev" by auto
    with CallListen Some show ?thesis by (simp add: iter_left_def)
  next
    case (CallUnlisten ev' h)
    have "length (removeAll h todo) \<le> length todo" by (simp add: removeAll_filter_not_eq)
    with CallUnlisten Some show ?thesis by (simp add: iter_left_def split: option.splits)
  qed (simp_all add: Some iter_left_def)
qed

lemma do_calls_shrinks:
  assumes "\<forall>c \<in> set cs. \<forall>h. c \<noteq> CallListen ev h"
  shows "iter_left (fst (do_calls ev cs r)) \<le> iter_left (fst r)"
  using assms
proof (induction cs arbitrary: r)
  case Nil
  then show ?case by simp
next
  case (Cons c cs)
  from Cons.prems have "\<And>h. c \<noteq> CallListen ev h" by simp
  then have "iter_left (call_iter ev c (snd r) (fst r)) \<le> iter_left (fst r)" by (rule call_shrinks)
  moreover from Cons.prems
  have "iter_left (fst (do_calls ev cs (call_iter ev c (snd r) (fst r), do_call c (snd r)))) \<le>
        iter_left (call_iter ev c (snd r) (fst r))"
    using Cons.IH[of "(call_iter ev c (snd r) (fst r), do_call c (snd r))"] by simp
  ultimately show ?case by simp
qed

lemma fan_loop_terminates:
  assumes "\<forall>h x h'. CallListen ev h' \<notin> set (fst (hb h payload x))"
  shows "\<exists>s'. fan_loop hb ev payload it s = Some s'"
proof (induction "iter_left it" arbitrary: it s rule: less_induct)
  case less
  show ?case
  proof (cases it)
    case None
    then show ?thesis by simp
  next
    case (Some todo)
    show ?thesis
    proof (cases todo)
      case Nil
      with Some show ?thesis by simp
    next
      case (Cons h rest)
      let ?s1 = "s\<lparr> delivered := delivered s @ [(h, payload)] \<rparr>"
      let ?r = "do_calls ev (fst (hb h payload ?s1)) (Some rest, ?s1)"
      let ?s2 = "(case snd (hb h payload ?s1) of
                    None \<Rightarrow> snd ?r
                  | Some e \<Rightarrow> (snd ?r)\<lparr> console_errors := console_errors (snd ?r) @ [(ev, e)] \<rparr>)"
      from assms have "\<forall>c \<in> set (fst (hb h payload ?s1)). \<forall>h'. c \<noteq> CallListen ev h'" by metis
      from do_calls_shrinks[OF this, of "(Some rest, ?s1)"]
      have "iter_left (fst ?r) \<le> length rest" by (simp add: iter_left_def)
      with Some Cons have "iter_left (fst ?r) < iter_left it" by (simp add: iter_left_def)
      from less[OF this, of ?s2] obtain s' where "fan_loop hb ev payload (fst ?r) ?s2 = Some s'"
        by blast
      moreover have "fan_loop hb ev payload it s = fan_loop hb ev payload (fst ?r) ?s2"
        unfolding Some Cons by (simp add: fan_loop_Cons Let_def)
      ultimately show ?thesis by simp
    qed
  qed
qed

text \<open>
  A handler that is still to be visited stays so through every call that does not
  unregister it.
\<close>

lemma call_keeps_handler:
  assumes "h \<in> set todo" "listeners s ev = Some hs" "set todo \<subseteq> set hs" "c \<noteq> CallUnlisten ev h"
  shows "\<exists>todo' hs'. call_iter ev c s (Some todo) = Some todo' \<and> h \<in> set todo' \<and>
           listeners (do_call c s) ev = Some hs' \<and> set todo' \<subseteq> set hs'"
proof (cases c)
  case (CallInvoke rid cmd a)
  with assms show ?thesis by simp
next
  case (CallListen ev' h1)
  with assms show ?thesis by (auto simp: listeners_listen)
next
  case (CallUnlisten ev' h1)
  show ?thesis
  proof (cases "ev' = ev")
    case False
    with CallUnlisten assms show ?thesis
      by (auto simp: listeners_unlisten split: option.splits)
  next
    case True
    with CallUnlisten assms(4) have ne: "h1 \<noteq> h" by simp
    with assms(1,3) have "h \<in> set (removeAll h1 hs)" by auto
    then have nn: "removeAll h1 hs \<noteq> []" by (metis empty_iff empty_set)
    from ne assms(1) have "h \<in> set (removeAll h1 todo)" by simp
    moreover from assms(3) have "set (removeAll h1 todo) \<subseteq> set (removeAll h1 hs)" by auto
    moreover have "call_iter ev c s (Some todo) = Some (removeAll h1 todo)"
      unfolding CallUnlisten True using assms(2) nn by (simp del: removeAll.simps)
    moreover have "listeners (do_call c s) ev = Some (removeAll h1 hs)"
      unfolding CallUnlisten True using assms(2) nn by (simp add: listeners_unlisten)
    ultimately show ?thesis by blast
  qed
next
  case (CallSubscribe cb)
  with assms show ?thesis by simp
next
  case (CallUnsubscribe cb)
  with assms show ?thesis by simp
qed

lemma do_calls_keeps_handler:
  assumes "h \<in> set todo" "listeners s ev = Some hs" "set todo \<subseteq> set hs"
    "\<forall>c \<in> set cs. c \<noteq> CallUnlisten ev h"
  shows "\<exists>todo' hs'. fst (do_calls ev cs (Some todo, s)) = Some todo' \<and> h \<in> set todo' \<and>
           listeners (snd (do_calls ev cs (Some todo, s))) ev = Some hs' \<and> set todo' \<subseteq> set hs'"
  using assms
proof (induction cs arbitrary: todo s hs)
  case Nil
  then show ?case by simp
next
  case (Cons c cs)
  from Cons.prems have "c \<noteq> CallUnlisten ev h" by simp
  from call_keeps_handler[OF Cons.prems(1-3) this] obtain todo1 hs1 where
    one: "call_iter ev c s (Some todo) = Some todo1" "h \<in> set todo1"
      "listeners (do_call c s) ev = Some hs1" "set todo1 \<subseteq> set hs1"
    by blast
  from Cons.prems have "\<forall>c \<in> set cs. c \<noteq> CallUnlisten ev h" by simp
  from Cons.IH[OF one(2-4) this] one(1) show ?case by simp
qed

text \<open>
  When the loop returns, it has called, after what was delivered before, every handler
  it had to visit that no handler has unregistered meanwhile.
\<close>

lemma fan_loop_delivers:
  assumes "fan_loop hb ev payload it s = Some s'"
    and "\<forall>h' x. CallUnlisten ev h \<notin> set (fst (hb h' payload x))"
  shows "(\<exists>ds. delivered s' = delivered s @ ds) \<and>
         (\<forall>todo hs. it = Some todo \<and> h \<in> set todo \<and> listeners s ev = Some hs \<and> set todo \<subseteq> set hs \<longrightarrow>
            (h, payload) \<in> set (drop (length (delivered s)) (delivered s')))"
proof -
  let ?Q = "\<lambda>d x y. (\<exists>ds. delivered y = delivered x @ ds) \<and>
         (\<forall>todo hs. d = Some todo \<and> h \<in> set todo \<and> listeners x ev = Some hs \<and> set todo \<subseteq> set hs \<longrightarrow>
            (h, payload) \<in> set (drop (length (delivered x)) (delivered y)))"
  have "hb = hb \<and> ev = ev \<and> payload = payload \<longrightarrow> ?Q it s s'"
  proof (rule fan_loop.raw_induct[where P = "\<lambda>a b c d x y. a = hb \<and> b = ev \<and> c = payload \<longrightarrow> ?Q d x y",
        OF _ assms(1)], goal_cases)
    case (1 f hb' ev' payload' it0 s0 y)
    show ?case
    proof (intro impI)
      assume eq: "hb' = hb \<and> ev' = ev \<and> payload' = payload"
      then have e: "hb' = hb" "ev' = ev" "payload' = payload" by simp_all
      show "?Q it0 s0 y"
      proof (cases it0)
        case None
        with 1(2) show ?thesis by simp
      next
        case (Some todo)
        show ?thesis
        proof (cases todo)
          case Nil
          with Some 1(2) show ?thesis by auto
        next
          case (Cons h0 rest)
          let ?s1 = "s0\<lparr> delivered := delivered s0 @ [(h0, payload)] \<rparr>"
          let ?r = "do_calls ev (fst (hb h0 payload ?s1)) (Some rest, ?s1)"
          let ?s2 = "(case snd (hb h0 payload ?s1) of
                  None \<Rightarrow> snd ?r
                | Some e \<Rightarrow> (snd ?r)\<lparr> console_errors := console_errors (snd ?r) @ [(ev, e)] \<rparr>)"
          have d2: "delivered ?s2 = delivered s0 @ [(h0, payload)]"
            by (simp split: option.splits)
          have l2: "listeners ?s2 ev = listeners (snd ?r) ev" by (simp split: option.splits)
          from 1(2) have "f hb ev payload (fst ?r) ?s2 = Some y"
            unfolding Some Cons e by (simp add: Let_def)
          from 1(1)[OF this] have ih: "?Q (fst ?r) ?s2 y" by simp
          then obtain ds where ds: "delivered y = delivered ?s2 @ ds" by blast
          with d2 have dy: "delivered y = delivered s0 @ (h0, payload) # ds" by simp
          have "(h, payload) \<in> set (drop (length (delivered s0)) (delivered y))"
            if t: "h \<in> set todo" and l: "listeners s0 ev = Some hs" and sub: "set todo \<subseteq> set hs"
            for hs
          proof (cases "h0 = h")
            case True
            with dy show ?thesis by simp
          next
            case False
            with t Cons have hr: "h \<in> set rest" by simp
            from sub Cons have sr: "set rest \<subseteq> set hs" by simp
            from l have l1: "listeners ?s1 ev = Some hs" by simp
            from assms(2) have "\<forall>c \<in> set (fst (hb h0 payload ?s1)). c \<noteq> CallUnlisten ev h"
              by metis
            from do_calls_keeps_handler[OF hr l1 sr this] obtain todo' hs' where
              k: "fst ?r = Some todo'" "h \<in> set todo'" "listeners (snd ?r) ev = Some hs'"
                "set todo' \<subseteq> set hs'"
              by blast
            from ih k l2 have "(h, payload) \<in> set (drop (length (delivered ?s2)) (delivered y))"
              by simp
            with ds have "(h, payload) \<in> set ds" by simp
            with dy show ?thesis by simp
          qed
          with dy Some show ?thesis by simp
        qed
      qed
    qed
  qed
  then show ?thesis by simp
qed

text \<open>
  When the loop returns, what it has delivered is the payload of this message, and the
  handlers of an event name that no handler has registered or unregistered meanwhile
  are the same as before.
\<close>

lemma fan_loop_payload:
  assumes "fan_loop hb ev payload it s = Some s'"
  shows "\<exists>ds. delivered s' = delivered s @ ds \<and> (\<forall>d \<in> set ds. snd d = payload)"
proof (rule fan_loop_preserves[OF assms,
      where P = "\<lambda>x. \<exists>ds. delivered x = delivered s @ ds \<and> (\<forall>d \<in> set ds. snd d = payload)"])
  show "\<exists>ds. delivered s = delivered s @ ds \<and> (\<forall>d \<in> set ds. snd d = payload)" by simp
  show "\<exists>ds. delivered (x\<lparr> delivered := delivered x @ [(h, payload)] \<rparr>) = delivered s @ ds \<and>
             (\<forall>d \<in> set ds. snd d = payload)"
    if "\<exists>ds. delivered x = delivered s @ ds \<and> (\<forall>d \<in> set ds. snd d = payload)" for x h
  proof -
    from that obtain ds where "delivered x = delivered s @ ds" "\<forall>d \<in> set ds. snd d = payload"
      by blast
    then have "delivered (x\<lparr> delivered := delivered x @ [(h, payload)] \<rparr>) =
                 delivered s @ (ds @ [(h, payload)]) \<and>
               (\<forall>d \<in> set (ds @ [(h, payload)]). snd d = payload)"
      by simp
    then show ?thesis by blast
  qed
qed simp_all

lemma fan_loop_other_listeners:
  assumes "fan_loop hb ev payload it s = Some s'"
    and "\<forall>h x. \<forall>c \<in> set (fst (hb h payload x)). \<not> touches ev' c"
  shows "listeners s' ev' = listeners s ev'"
proof (rule fan_loop_preserves[OF assms(1), where P = "\<lambda>x. listeners x ev' = listeners s ev'"])
  show "listeners (do_call c x) ev' = listeners s ev'"
    if "c \<in> set (fst (hb h payload y))" "listeners x ev' = listeners s ev'" for x h y c
  proof -
    from that(1) assms(2) have "\<not> touches ev' c" by blast
    from call_untouched[OF this, of x None] that(2) show ?thesis by simp
  qed
qed simp_all

section \<open>The loop on examples\<close>

lemma two_listeners_fields:
  "listeners two_listeners = [''status'' \<mapsto> [1, 2]]" "delivered two_listeners = []"
  "console_errors two_listeners = []" "\<not> hung two_listeners"
  by (simp_all add: two_listeners_def listen_def init_def Let_def connect_def
      validateAndConnect_start_def)

text \<open>A handler registered while the loop runs is called at the end of the same loop.\<close>

lemma added_handler_is_visited:
  "map_option delivered (fan_loop first_listens_third ''status'' p (Some [1, 2]) two_listeners) =
     Some [(1, p), (2, p), (3, p)]"
  by (simp add: two_listeners_fields fan_loop_Cons first_listens_third_def Let_def listeners_listen)

text \<open>
  Once the set is emptied it is removed from the map; handlers registered after that
  go into a new set, which the running loop does not see.
\<close>

lemma emptied_set_ends_the_loop:
  "map_option delivered (fan_loop first_replaces_all ''status'' p (Some [1, 2]) two_listeners) =
     Some [(1, p)] \<and>
   map_option (\<lambda>s. listeners s ''status'')
     (fan_loop first_replaces_all ''status'' p (Some [1, 2]) two_listeners) = Some (Some [3, 4])"
  by (simp add: two_listeners_fields fan_loop_Cons first_replaces_all_def Let_def listeners_listen
      listeners_unlisten)

text \<open>
  Handlers that each register a new handler keep the loop running for ever: it has no
  result, and the page hangs.
\<close>

lemma each_listens_next_never_returns:
  assumes "listeners s ''status'' = Some hs" "\<forall>k \<in> set hs. k \<le> h"
  shows "fan_loop each_listens_next ''status'' p (Some [h]) s = None"
proof (cases "fan_loop each_listens_next ''status'' p (Some [h]) s")
  case None
  then show ?thesis .
next
  case (Some s')
  let ?Q = "\<lambda>d x. \<exists>h hs. d = Some [h] \<and> listeners x ''status'' = Some hs \<and> (\<forall>k \<in> set hs. k \<le> h)"
  have "each_listens_next = each_listens_next \<and> ''status'' = ''status'' \<and> p = p \<and>
        ?Q (Some [h]) s \<longrightarrow> False"
  proof (rule fan_loop.raw_induct[where P = "\<lambda>a b c d x y. a = each_listens_next \<and> b = ''status'' \<and>
        c = p \<and> ?Q d x \<longrightarrow> False", OF _ Some], goal_cases)
    case (1 f hb' ev' payload' it0 s0 y)
    show ?case
    proof (intro impI)
      assume a: "hb' = each_listens_next \<and> ev' = ''status'' \<and> payload' = p \<and> ?Q it0 s0"
      then obtain h0 hs0 where q: "it0 = Some [h0]" "listeners s0 ''status'' = Some hs0"
        "\<forall>k \<in> set hs0. k \<le> h0"
        by blast
      from a have e: "hb' = each_listens_next" "ev' = ''status''" "payload' = p" by simp_all
      let ?s1 = "s0\<lparr> delivered := delivered s0 @ [(h0, p)] \<rparr>"
      from q(3) have nin: "h0 + 1 \<notin> set hs0" by auto
      from 1(2) q(2) nin have "f each_listens_next ''status'' p (Some [h0 + 1])
          (listen ''status'' (h0 + 1) ?s1) = Some y"
        unfolding q(1) e by (simp add: Let_def each_listens_next_def)
      moreover have "?Q (Some [h0 + 1]) (listen ''status'' (h0 + 1) ?s1)"
        using q(2,3) nin by (auto simp: listeners_listen)
      ultimately show False using 1(1) by blast
    qed
  qed
  with assms show ?thesis by blast
qed

lemma each_listens_next_hangs:
  "fan_out each_listens_next ''status'' p [2] (unlisten ''status'' 1 two_listeners) =
     (unlisten ''status'' 1 two_listeners)\<lparr> hung := True \<rparr>"
proof -
  have "listeners (unlisten ''status'' 1 two_listeners) ''status'' = Some [2]"
    by (simp add: listeners_unlisten two_listeners_fields)
  from each_listens_next_never_returns[OF this, of 2 p] show ?thesis by (simp add: fan_out_def)
qed

text \<open>A page whose handlers never register a handler never hangs.\<close>

lemma fan_out_not_hung:
  assumes "\<forall>h payload x ev h'. CallListen ev h' \<notin> set (fst (hb h payload x))"
  shows "hung (fan_out hb ev payload hs s) = hung s"
proof -
  from assms have "\<forall>h x h'. CallListen ev h' \<notin> set (fst (hb h payload x))" by blast
  from fan_loop_terminates[of ev hb payload "Some hs" s, OF this] obtain s' where
    s': "fan_loop hb ev payload (Some hs) s = Some s'" by blast
  have "hung s' = hung s"
    by (rule fan_loop_preserves[OF s', where P = "\<lambda>x. hung x = hung s"]) simp_all
  with s' show ?thesis by (simp add: fan_out_def)
qed

lemma step_not_hung:
  assumes "\<forall>h payload x ev h'. CallListen ev h' \<notin> set (fst (hb h payload x))"
  shows "hung (step hb e s) = hung s"
proof (cases e rule: message_cases)
  case other
  then show ?thesis by (rule hung_step)
next
  case (message k parsed)
  have "hung (onmessage hb parsed s) = hung s"
  proof (cases parsed)
    case None
    then show ?thesis by (simp add: onmessage_def)
  next
    case (Some msg)
    show ?thesis
    proof (cases "handleMessage hb msg s")
      case None
      with Some show ?thesis by (simp add: onmessage_def)
    next
      case s': (Some s')
      then have "hung s' = hung s"
      proof (cases rule: handleMessage_cases)
        case (event ev hs)
        with fan_out_not_hung[OF assms] show ?thesis by simp
      qed (simp_all add: settle_pending_def)
      with Some s' show ?thesis by (simp add: onmessage_def)
    qed
  qed
  with message show ?thesis by simp
qed

lemma run_never_hangs:
  assumes "\<forall>h payload x ev h'. CallListen ev h' \<notin> set (fst (hb h payload x))" "\<not> hung s"
  shows "\<not> hung (run hb es s)"
  using assms(2) by (induction es arbitrary: s) (simp_all add: step_not_hung[OF assms(1)])

section \<open>The reconnect attempt counter\<close>

lemma scheduleReconnect_cases:
  "scheduleReconnect s = s \<and> (reconnectTimer s \<noteq> None \<or> truthy_str (authError s)) \<or>
   reconnectTimer s = None \<and> \<not> truthy_str (authError s) \<and>
   scheduleReconnect s =
     s\<lparr> reconnectAttempt := reconnectAttempt s + 1,
        timers := (timers s)(next_timer s \<mapsto> (now s + min (1000 * 2 ^ reconnectAttempt s) 30000, ReconnectTimer)),
        next_timer := next_timer s + 1,
        reconnectTimer := Some (next_timer s) \<rparr>"
  by (simp add: scheduleReconnect_def backoff_delay_def Let_def)

lemma reconnectAttempt_connect [simp]: "reconnectAttempt (connect s) = reconnectAttempt s"
  by (simp add: connect_def Let_def validateAndConnect_start_def setAuthError_def
      notifySubscribers_def)

lemma reconnectAttempt_invoke [simp]:
  "reconnectAttempt (snd (invoke rid c a s)) = reconnectAttempt s"
  by (simp add: invoke_def Let_def)

lemma reconnectAttempt_listen [simp]: "reconnectAttempt (listen ev h s) = reconnectAttempt s"
  by (simp add: listen_def Let_def)

lemma reconnectAttempt_unlisten [simp]: "reconnectAttempt (unlisten ev h s) = reconnectAttempt s"
  by (simp add: unlisten_def Let_def split: option.splits list.splits)

lemma reconnectAttempt_do_call [simp]: "reconnectAttempt (do_call c s) = reconnectAttempt s"
  by (cases c) (simp_all add: subscribe_def unsubscribe_def)

lemma reconnectAttempt_onmessage [simp]:
  "reconnectAttempt (onmessage hb parsed s) = reconnectAttempt s"
  by (rule onmessage_preserves[where P = "\<lambda>x. reconnectAttempt x = reconnectAttempt s"])
     (simp_all add: settle_pending_def)

lemma reconnectAttempt_fire_timer [simp]: "reconnectAttempt (fire_timer t s) = reconnectAttempt s"
proof (cases "timers s t")
  case None
  then show ?thesis by (simp add: fire_timer_def)
next
  case (Some x)
  obtain d act where "x = (d, act)" by (cases x)
  with Some show ?thesis by (cases act) (simp_all add: fire_timer_def)
qed

lemma reconnectAttempt_flush_queue:
  "flush_queue ds s = Some s' \<Longrightarrow> reconnectAttempt s' = reconnectAttempt s \<and> connected s' = connected s"
  by (induction ds arbitrary: s)
     (auto simp: socket_send_def split: option.splits ready_state.splits)

lemma onopen_attempt: "reconnectAttempt (onopen s) = 0 \<and> connected (onopen s)"
  by (auto simp: onopen_def Let_def setConnected_def notifySubscribers_def
      dest!: reconnectAttempt_flush_queue split: option.splits)

lemma scheduleReconnect_attempt:
  assumes "reconnectAttempt s1 = reconnectAttempt s" "next_timer s1 = next_timer s" "now s1 = now s"
  shows "reconnectAttempt (scheduleReconnect s1) = reconnectAttempt s \<or>
         scheduled_here s (scheduleReconnect s1)"
  using scheduleReconnect_cases[of s1] assms by (auto simp: scheduled_here_def)

lemma reconnectAttempt_step:
  "reconnectAttempt (step hb e s) = reconnectAttempt s \<or>
   scheduled_here s (step hb e s) \<or>
   (\<exists>k. e = EOpen k) \<and> reconnectAttempt (step hb e s) = 0 \<and> connected (step hb e s)"
proof (cases e)
  case (EAuth res)
  show ?thesis
  proof (cases "fetching s")
    case Nil
    with EAuth show ?thesis by simp
  next
    case (Cons token rest)
    show ?thesis
    proof (cases res)
      case AuthUnreachable
      let ?s1 = "setAuthError None (s\<lparr> fetching := rest \<rparr>)"
      have "reconnectAttempt (scheduleReconnect ?s1) = reconnectAttempt s \<or>
            scheduled_here s (scheduleReconnect ?s1)"
        by (rule scheduleReconnect_attempt)
           (simp_all add: setAuthError_def notifySubscribers_def)
      with EAuth Cons AuthUnreachable show ?thesis
        by (auto simp: validateAndConnect_resume_def connect_finally_def scheduled_here_def)
    qed (use EAuth Cons in \<open>simp_all add: validateAndConnect_resume_def connect_finally_def
          connectWs_def setAuthError_def notifySubscribers_def Let_def\<close>)
  qed
next
  case (EOpen k)
  then show ?thesis using onopen_attempt by auto
next
  case (EClose k)
  let ?s1 = "setConnected False (s\<lparr> sockets := (sockets s)(k \<mapsto> CLOSED) \<rparr>)"
  have "reconnectAttempt (scheduleReconnect ?s1) = reconnectAttempt s \<or>
        scheduled_here s (scheduleReconnect ?s1)"
    by (rule scheduleReconnect_attempt) (simp_all add: setConnected_def notifySubscribers_def)
  with EClose show ?thesis by (auto simp: onclose_def)
qed (simp_all add: subscribe_def unsubscribe_def)

section \<open>Answers, expiry and the event loop\<close>

lemma handleMessage_answer:
  assumes "is_answer msg rid" "rid \<noteq> []" "pending s rid = Some pr"
  shows "handleMessage hb msg s = Some (settle_pending rid pr (answer_outcome msg) s)"
proof -
  from assms(1) have "msg \<noteq> JNull" by (auto simp: is_answer_def)
  with assms show ?thesis
    by (auto simp: handleMessage_def is_answer_def answer_outcome_def)
qed

lemma handleMessage_late_answer:
  assumes "is_answer msg rid" "pending s rid = None"
  shows "handleMessage hb msg s = Some s"
proof -
  from assms(1) have "msg \<noteq> JNull" by (auto simp: is_answer_def)
  with assms show ?thesis
    by (auto simp: handleMessage_def is_answer_def)
qed

lemma fire_timer_request:
  assumes "timers s t = Some (d, RequestTimeout rid c p)" "d \<le> now s"
  shows "fire_timer t s =
           s\<lparr> timers := (timers s)(t := None), pending := (pending s)(rid := None),
              settled := settled s @ [(p, Rejected (timeout_error c))] \<rparr>"
  using assms by (simp add: fire_timer_def)

lemma pending_fire_timer:
  "pending (fire_timer t s) = pending s \<or> (\<exists>x. pending (fire_timer t s) = (pending s)(x := None))"
proof (cases "timers s t")
  case None
  then show ?thesis by (simp add: fire_timer_def)
next
  case (Some x)
  obtain d act where "x = (d, act)" by (cases x)
  with Some show ?thesis by (cases act) (auto simp: fire_timer_def)
qed

lemma pending_do_call:
  assumes "pending s rid = None" "\<And>c a. call \<noteq> CallInvoke rid c a"
  shows "pending (do_call call s) rid = None"
  using assms by (cases call) (auto simp: invoke_fields)

lemma pending_onmessage:
  assumes "pending s rid = None" "never_invokes hb rid"
  shows "pending (onmessage hb parsed s) rid = None"
proof (rule onmessage_preserves[where P = "\<lambda>x. pending x rid = None"])
  show "pending (do_call c x) rid = None"
    if "c \<in> set (fst (hb h payload y))" "pending x rid = None" for x h payload y c
  proof (rule pending_do_call[OF that(2)])
    show "c \<noteq> CallInvoke rid cmd a" for cmd a
      using that(1) assms(2) unfolding never_invokes_def by blast
  qed
qed (use assms(1) in \<open>simp_all add: settle_pending_def\<close>)

lemma pending_stays_removed:
  assumes "pending s rid = None" "\<not> invokes rid e" "never_invokes hb rid"
  shows "pending (step hb e s) rid = None"
proof (cases e)
  case (EInvoke rid' c a)
  with assms show ?thesis by (simp add: invoke_fields)
next
  case (EMessage k parsed)
  with assms show ?thesis by (simp add: pending_onmessage)
next
  case (ETimer t)
  from pending_fire_timer[of t s] assms(1) have "pending (fire_timer t s) rid = None" by auto
  with ETimer show ?thesis by simp
next
  case (EAuth res)
  with assms show ?thesis
    by (cases "fetching s"; cases res) (simp_all add: validateAndConnect_resume_def)
next
  case (EClose k)
  with assms show ?thesis by (auto simp: onclose_def)
qed (use assms in \<open>simp_all add: subscribe_def unsubscribe_def\<close>)

lemma pending_stays_removed_run:
  assumes "pending s rid = None" "\<forall>e \<in> set es. \<not> invokes rid e" "never_invokes hb rid"
  shows "pending (run hb es s) rid = None"
  using assms by (induction es arbitrary: s) (simp_all add: pending_stays_removed)

lemma awaiting_invoke:
  assumes "consistent s"
  shows "awaiting (next_promise s) rid c (now s + 60000) (snd (invoke rid c a s))"
proof -
  let ?s1 = "snd (invoke rid c a s)"
  let ?p = "next_promise s"
  from assms have tb: "timers_below s" and au: "armed_unsettled s" by (simp_all add: consistent_def)
  have tm: "timers ?s1 = (timers s)(next_timer s \<mapsto> (now s + 60000, RequestTimeout rid c ?p))"
    by (simp add: invoke_fields)
  from au have na: "\<not> armed s ?p" unfolding armed_unsettled_def by auto
  have "d = now s + 60000 \<and> rid' = rid \<and> c' = c"
    if "timers ?s1 t = Some (d, RequestTimeout rid' c' ?p)" for t d rid' c'
  proof (cases "t = next_timer s")
    case True
    with that tm show ?thesis by simp
  next
    case False
    with that tm have "timers s t = Some (d, RequestTimeout rid' c' ?p)" by simp
    with na show ?thesis unfolding armed_def by blast
  qed
  moreover have "armed ?s1 ?p" unfolding armed_def using tm by auto
  moreover have "?p < next_promise ?s1" by (simp add: invoke_fields)
  ultimately show ?thesis unfolding awaiting_def by blast
qed

lemma awaiting_later:
  assumes "awaiting p rid c due s" "next_promise s \<le> next_promise s'"
    and sub: "\<And>t d rid' c'. timers s' t = Some (d, RequestTimeout rid' c' p) \<Longrightarrow>
                timers s t = Some (d, RequestTimeout rid' c' p)"
    and live: "is_settled s p \<or> armed s p \<Longrightarrow> is_settled s' p \<or> armed s' p"
  shows "awaiting p rid c due s'"
proof -
  from assms(1) have lt: "p < next_promise s"
    and only: "\<And>t d rid' c'. timers s t = Some (d, RequestTimeout rid' c' p) \<Longrightarrow>
                 d = due \<and> rid' = rid \<and> c' = c"
    and l: "is_settled s p \<or> armed s p"
    unfolding awaiting_def by blast+
  from lt assms(2) have "p < next_promise s'" by simp
  moreover have "d = due \<and> rid' = rid \<and> c' = c"
    if "timers s' t = Some (d, RequestTimeout rid' c' p)" for t d rid' c'
    using only[OF sub[OF that]] .
  moreover from l have "is_settled s' p \<or> armed s' p" by (rule live)
  ultimately show ?thesis unfolding awaiting_def by blast
qed

lemma awaiting_core_step:
  assumes "core_step A s s'" "consistent s" "awaiting p rid c due s"
  shows "awaiting p rid c due s'"
proof -
  from assms(3) have lt: "p < next_promise s" unfolding awaiting_def by blast
  from assms(2) have tb: "timers_below s" and ot: "one_timer s" and pa: "pending_armed s"
    by (simp_all add: consistent_def)
  from assms(1) show ?thesis
  proof (cases rule: core_step.cases)
    case keep
    show ?thesis
    proof (rule awaiting_later[OF assms(3)])
      show "next_promise s \<le> next_promise s'" using keep by simp
      show "is_settled s' p \<or> armed s' p" if "is_settled s p \<or> armed s p"
        using that keep by (simp add: is_settled_def armed_def)
    qed (simp add: keep)
  next
    case (new_reconnect d)
    show ?thesis
    proof (rule awaiting_later[OF assms(3)])
      show "next_promise s \<le> next_promise s'" using new_reconnect by simp
      show "is_settled s' p \<or> armed s' p" if "is_settled s p \<or> armed s p"
        using that armed_add_reconnect[OF tb new_reconnect(2), of p]
          is_settled_same[OF new_reconnect(3), of p] by simp
      show "timers s t = Some (e, RequestTimeout rid' c' p)"
        if "timers s' t = Some (e, RequestTimeout rid' c' p)" for t e rid' c'
        using that new_reconnect(2) by (simp split: if_splits)
    qed
  next
    case (invoked rid0 c0)
    show ?thesis
    proof (rule awaiting_later[OF assms(3)])
      show "next_promise s \<le> next_promise s'" using invoked by simp
      show "is_settled s' p \<or> armed s' p" if "is_settled s p \<or> armed s p"
        using that armed_add_request[OF tb invoked(2), of p]
          is_settled_same[OF invoked(3), of p] by auto
      show "timers s t = Some (e, RequestTimeout rid' c' p)"
        if "timers s' t = Some (e, RequestTimeout rid' c' p)" for t e rid' c'
        using that invoked(2) lt by (simp split: if_splits)
    qed
  next
    case (answered rid0 pr out)
    from pa answered(2) obtain d0 c0 where
      t0: "timers s (timeout pr) = Some (d0, RequestTimeout rid0 c0 (promise pr))"
      unfolding pending_armed_def by blast
    show ?thesis
    proof (rule awaiting_later[OF assms(3)])
      show "next_promise s \<le> next_promise s'" using answered by simp
      show "is_settled s' p \<or> armed s' p" if "is_settled s p \<or> armed s p"
        using that armed_remove_request[OF ot t0 answered(4), of p]
          is_settled_append[OF answered(5), of p] by auto
      show "timers s t = Some (e, RequestTimeout rid' c' p)"
        if "timers s' t = Some (e, RequestTimeout rid' c' p)" for t e rid' c'
        using that answered(4) by (simp split: if_splits)
    qed
  next
    case (expired t0 d0 rid0 c0 p0)
    show ?thesis
    proof (rule awaiting_later[OF assms(3)])
      show "next_promise s \<le> next_promise s'" using expired by simp
      show "is_settled s' p \<or> armed s' p" if "is_settled s p \<or> armed s p"
        using that armed_remove_request[OF ot expired(1) expired(4), of p]
          is_settled_append[OF expired(5), of p] by auto
      show "timers s t = Some (e, RequestTimeout rid' c' p)"
        if "timers s' t = Some (e, RequestTimeout rid' c' p)" for t e rid' c'
        using that expired(4) by (simp split: if_splits)
    qed
  next
    case (reconnect_fired t0 d0)
    show ?thesis
    proof (rule awaiting_later[OF assms(3)])
      show "next_promise s \<le> next_promise s'" using reconnect_fired by simp
      show "is_settled s' p \<or> armed s' p" if "is_settled s p \<or> armed s p"
        using that armed_remove_reconnect[OF reconnect_fired(1) reconnect_fired(4), of p]
          is_settled_same[OF reconnect_fired(5), of p] by simp
      show "timers s t = Some (e, RequestTimeout rid' c' p)"
        if "timers s' t = Some (e, RequestTimeout rid' c' p)" for t e rid' c'
        using that reconnect_fired(4) by (simp split: if_splits)
    qed
  qed
qed

lemma only_timed_out_core_step:
  assumes "core_step A s s'" "rid \<notin> A" "consistent s" "awaiting p rid c due s"
    "only_timed_out p c due s"
  shows "only_timed_out p c due s'"
proof -
  from assms(4) have only: "\<And>t d rid' c'. timers s t = Some (d, RequestTimeout rid' c' p) \<Longrightarrow>
                 d = due \<and> rid' = rid \<and> c' = c"
    unfolding awaiting_def by blast
  from assms(3) have pa: "pending_armed s" by (simp add: consistent_def)
  from assms(5) have old: "\<And>out. (p, out) \<in> set (settled s) \<Longrightarrow>
      out = Rejected (timeout_error c) \<and> due \<le> now s"
    unfolding only_timed_out_def by blast
  from assms(1) show ?thesis
  proof (cases rule: core_step.cases)
    case keep
    with old show ?thesis unfolding only_timed_out_def by (auto intro: order_trans)
  next
    case (new_reconnect d)
    with old show ?thesis unfolding only_timed_out_def by auto
  next
    case (invoked rid0 c0)
    with old show ?thesis unfolding only_timed_out_def by auto
  next
    case (answered rid0 pr out)
    from pa answered(2) obtain d0 c0 where
      t0: "timers s (timeout pr) = Some (d0, RequestTimeout rid0 c0 (promise pr))"
      unfolding pending_armed_def by blast
    have "promise pr \<noteq> p"
    proof
      assume "promise pr = p"
      with t0 only have "rid0 = rid" by blast
      with answered(1) assms(2) show False by simp
    qed
    with answered old show ?thesis unfolding only_timed_out_def by auto
  next
    case (expired t0 d0 rid0 c0 p0)
    have "c0 = c \<and> d0 = due" if "p0 = p"
      using only[of t0 d0 rid0 c0] expired(1) that by simp
    with expired old show ?thesis unfolding only_timed_out_def by auto
  next
    case (reconnect_fired t0 d0)
    with old show ?thesis unfolding only_timed_out_def by auto
  qed
qed

lemma is_settled_core_step: "core_step A s s' \<Longrightarrow> is_settled s p \<Longrightarrow> is_settled s' p"
  by (cases rule: core_step.cases) (auto simp: is_settled_def)

lemma now_core_step: "core_step A s s' \<Longrightarrow> now s \<le> now s'"
  by (cases rule: core_step.cases) auto

lemma core_steps_keep:
  assumes "(core_step A)\<^sup>*\<^sup>* s s'" "consistent s" "awaiting p rid c due s"
  shows "consistent s' \<and> awaiting p rid c due s' \<and> now s \<le> now s' \<and>
         (rid \<notin> A \<longrightarrow> only_timed_out p c due s \<longrightarrow> only_timed_out p c due s')"
  using assms
proof (induction rule: rtranclp_induct)
  case base
  then show ?case by simp
next
  case (step y z)
  from step.IH[OF step.prems] have c: "consistent y" and a: "awaiting p rid c due y"
    and n: "now s \<le> now y"
    and q: "rid \<notin> A \<Longrightarrow> only_timed_out p c due s \<Longrightarrow> only_timed_out p c due y"
    by simp_all
  from step.hyps(2) c have c1: "consistent z" by (rule consistent_core_step)
  from step.hyps(2) c a have a1: "awaiting p rid c due z" by (rule awaiting_core_step)
  from now_core_step[OF step.hyps(2)] n have n1: "now s \<le> now z" by simp
  have q1: "only_timed_out p c due z" if "rid \<notin> A" "only_timed_out p c due s"
    using step.hyps(2) that(1) c a q[OF that] by (rule only_timed_out_core_step)
  from c1 a1 n1 q1 show ?case by simp
qed

lemma run_keeps:
  assumes "consistent s" "awaiting p rid c due s"
  shows "consistent (run hb es s) \<and> awaiting p rid c due (run hb es s) \<and>
         now s \<le> now (run hb es s) \<and>
         ((\<forall>e \<in> set es. \<not> answers rid e) \<longrightarrow> only_timed_out p c due s \<longrightarrow>
            only_timed_out p c due (run hb es s))"
  using assms
proof (induction es arbitrary: s)
  case Nil
  then show ?case by simp
next
  case (Cons e es)
  let ?s1 = "step hb e s"
  note k = core_steps_keep[OF core_steps_step[of e s hb] Cons.prems]
  from k have c1: "consistent ?s1" and a1: "awaiting p rid c due ?s1"
    and n1: "now s \<le> now ?s1" by simp_all
  from k have q1: "only_timed_out p c due ?s1" if "\<not> answers rid e" "only_timed_out p c due s"
    using that by simp
  from Cons.IH[OF c1 a1] n1 q1 Cons.prems show ?case by auto
qed

lemma fire_timer_other:
  "t' \<noteq> t \<Longrightarrow> timers (fire_timer t' s) t = timers s t"
  using timers_fire_timer[of t' s] by auto

lemma now_fire_timer [simp]: "now (fire_timer t s) = now s"
  using now_core_step[OF core_step_fire_timer[of "{}" s t]]
proof (cases "timers s t")
  case None
  then show ?thesis by (simp add: fire_timer_def)
next
  case (Some x)
  obtain d act where "x = (d, act)" by (cases x)
  with Some show ?thesis by (cases act) (simp_all add: fire_timer_def)
qed

lemma fold_fire_keeps:
  assumes "consistent s" "awaiting p rid c due s"
  shows "consistent (fold fire_timer ts s) \<and> awaiting p rid c due (fold fire_timer ts s) \<and>
         now (fold fire_timer ts s) = now s \<and>
         (only_timed_out p c due s \<longrightarrow> only_timed_out p c due (fold fire_timer ts s)) \<and>
         (is_settled s p \<longrightarrow> is_settled (fold fire_timer ts s) p)"
  using assms
proof (induction ts arbitrary: s)
  case Nil
  then show ?case by simp
next
  case (Cons t ts)
  let ?s1 = "fire_timer t s"
  have cs: "core_step {} s ?s1" by (rule core_step_fire_timer)
  from cs Cons.prems(1) have c1: "consistent ?s1" by (rule consistent_core_step)
  from cs Cons.prems have a1: "awaiting p rid c due ?s1" by (rule awaiting_core_step)
  have q1: "only_timed_out p c due ?s1" if "only_timed_out p c due s"
    using cs _ Cons.prems that by (rule only_timed_out_core_step) simp
  have s1: "is_settled ?s1 p" if "is_settled s p"
    using cs that by (rule is_settled_core_step)
  from Cons.IH[OF c1 a1] q1 s1 show ?case by auto
qed

lemma fold_fire_settles:
  assumes "t \<in> set ts" "timers s t = Some (d, RequestTimeout rid c p)" "d \<le> now s"
    "consistent s" "awaiting p rid c due s"
  shows "is_settled (fold fire_timer ts s) p"
  using assms
proof (induction ts arbitrary: s)
  case Nil
  then show ?case by simp
next
  case (Cons t' ts)
  let ?s1 = "fire_timer t' s"
  have cs: "core_step {} s ?s1" by (rule core_step_fire_timer)
  from cs Cons.prems(4) have c1: "consistent ?s1" by (rule consistent_core_step)
  from cs Cons.prems(4,5) have a1: "awaiting p rid c due ?s1" by (rule awaiting_core_step)
  show ?case
  proof (cases "t' = t")
    case True
    with Cons.prems(2,3) have "is_settled ?s1 p"
      by (simp add: fire_timer_request is_settled_def)
    with fold_fire_keeps[OF c1 a1, of ts] show ?thesis by simp
  next
    case False
    with Cons.prems(1) have "t \<in> set ts" by simp
    moreover from False Cons.prems(2) have "timers ?s1 t = Some (d, RequestTimeout rid c p)"
      by (simp add: fire_timer_other)
    moreover from Cons.prems(3) have "d \<le> now ?s1" by simp
    ultimately have "is_settled (fold fire_timer ts ?s1) p"
      using c1 a1 by (rule Cons.IH)
    then show ?thesis by simp
  qed
qed

lemma drain_timers_hung: "hung s \<Longrightarrow> drain_timers s = s"
  by (simp add: drain_timers_def)

lemma drain_settles:
  assumes "consistent s" "awaiting p rid c due s" "due \<le> now s" "\<not> hung s"
  shows "is_settled (drain_timers s) p"
proof (cases "is_settled s p")
  case True
  with fold_fire_keeps[OF assms(1,2), of "due_timers s"] assms(4) show ?thesis
    by (simp add: drain_timers_def)
next
  case False
  with assms(2) obtain t d rid' c' where t: "timers s t = Some (d, RequestTimeout rid' c' p)"
    unfolding awaiting_def armed_def by blast
  with assms(2) have eq: "d = due" "rid' = rid" "c' = c" unfolding awaiting_def by blast+
  from assms(1) t have "t < next_timer s" unfolding consistent_def timers_below_def by blast
  with t eq assms(3) have "t \<in> set (due_timers s)" by (simp add: due_timers_def)
  from fold_fire_settles[OF this _ _ assms(1,2)] t eq assms(3,4) show ?thesis
    by (simp add: drain_timers_def)
qed

section \<open>The preloader\<close>

lemma promise_then_locals [simp]: "locals (promise_then r st) = locals st"
  by (simp add: promise_then_def split: option.splits promise_state.splits)

section \<open>The claims\<close>

text \<open>
  C1. In every reachable state no promise has been settled twice: the log of
  \<^verbatim>\<open>resolve\<close>/\<^verbatim>\<open>reject\<close> calls names each promise at most once. A response or error
  message for a pending id finds its promise unsettled, settles it, cancels the entry's
  timer and removes the id; an expiry timer that fires finds its promise unsettled,
  rejects it and removes the id. Once an id is not pending, and as long as no later
  invoke, of the application or of an event handler, draws the same id again, it stays
  removed, and a response or error message bearing it changes nothing.
\<close>

theorem settled_at_most_once:
  assumes "reachable hb s"
  shows "distinct (map fst (settled s)) \<and>
         (\<forall>msg rid pr. is_answer msg rid \<and> rid \<noteq> [] \<and> pending s rid = Some pr \<longrightarrow>
            promise pr \<notin> fst ` set (settled s) \<and>
            handleMessage hb msg s =
              Some (s\<lparr> timers := (timers s)(timeout pr := None),
                       pending := (pending s)(rid := None),
                       settled := settled s @ [(promise pr, answer_outcome msg)] \<rparr>)) \<and>
         (\<forall>t d rid c p. timers s t = Some (d, RequestTimeout rid c p) \<and> d \<le> now s \<longrightarrow>
            p \<notin> fst ` set (settled s) \<and>
            fire_timer t s =
              s\<lparr> timers := (timers s)(t := None), pending := (pending s)(rid := None),
                 settled := settled s @ [(p, Rejected (timeout_error c))] \<rparr>) \<and>
         (\<forall>msg rid es k. is_answer msg rid \<and> pending s rid = None \<and>
            (\<forall>e \<in> set es. \<not> invokes rid e) \<and> never_invokes hb rid \<longrightarrow>
            step hb (EMessage k (Some msg)) (run hb es s) = run hb es s)"
proof (intro conjI allI impI)
  from assms have c: "consistent s" by (rule reachable_consistent)
  then show "distinct (map fst (settled s))" by (simp add: consistent_def)
  show "promise pr \<notin> fst ` set (settled s)"
    if "is_answer msg rid \<and> rid \<noteq> [] \<and> pending s rid = Some pr" for msg rid pr
  proof -
    from c that have "armed s (promise pr)"
      unfolding consistent_def pending_armed_def armed_def by blast
    with c show ?thesis unfolding consistent_def armed_unsettled_def is_settled_def by blast
  qed
  show "handleMessage hb msg s =
          Some (s\<lparr> timers := (timers s)(timeout pr := None),
                   pending := (pending s)(rid := None),
                   settled := settled s @ [(promise pr, answer_outcome msg)] \<rparr>)"
    if "is_answer msg rid \<and> rid \<noteq> [] \<and> pending s rid = Some pr" for msg rid pr
    using that handleMessage_answer[of msg rid s pr hb] by (simp add: settle_pending_def)
  show "p \<notin> fst ` set (settled s)"
    if "timers s t = Some (d, RequestTimeout rid c p) \<and> d \<le> now s" for t d rid c p
  proof -
    from that have "armed s p" unfolding armed_def by blast
    with c show ?thesis unfolding consistent_def armed_unsettled_def is_settled_def by blast
  qed
  show "fire_timer t s =
          s\<lparr> timers := (timers s)(t := None), pending := (pending s)(rid := None),
             settled := settled s @ [(p, Rejected (timeout_error c))] \<rparr>"
    if "timers s t = Some (d, RequestTimeout rid c p) \<and> d \<le> now s" for t d rid c p
    using that by (simp add: fire_timer_request)
  show "step hb (EMessage k (Some msg)) (run hb es s) = run hb es s"
    if "is_answer msg rid \<and> pending s rid = None \<and> (\<forall>e \<in> set es. \<not> invokes rid e) \<and>
        never_invokes hb rid"
    for msg rid es k
  proof -
    from that have "pending (run hb es s) rid = None" by (simp add: pending_stays_removed_run)
    with that have "handleMessage hb msg (run hb es s) = Some (run hb es s)"
      by (intro handleMessage_late_answer[of msg rid]) simp_all
    then show ?thesis by (simp add: onmessage_def)
  qed
qed

theorem settled_at_most_once_witness:
  "reachable quiet three_pending \<and> is_answer answer_b ''b'' \<and> never_invokes quiet ''b'' \<and>
   pending three_pending ''b'' = Some \<lparr> promise = 1, timeout = 2 \<rparr> \<and>
   handleMessage quiet answer_b three_pending =
     Some (three_pending\<lparr> timers := (timers three_pending)(2 := None),
                          pending := (pending three_pending)(''b'' := None),
                          settled := [(1, Resolved (Some (JNum 5)))] \<rparr>) \<and>
   reachable quiet (step quiet (EMessage 0 (Some answer_b)) three_pending) \<and>
   pending (step quiet (EMessage 0 (Some answer_b)) three_pending) ''b'' = None \<and>
   step quiet (EMessage 0 (Some answer_b))
     (run quiet [EAdvance 100] (step quiet (EMessage 0 (Some answer_b)) three_pending)) =
   run quiet [EAdvance 100] (step quiet (EMessage 0 (Some answer_b)) three_pending)"
proof -
  let ?hb = "quiet :: handler_behaviour"
  let ?s1 = "step ?hb (EMessage 0 (Some answer_b)) three_pending"
  let ?pr = "\<lparr> promise = 1, timeout = 2 \<rparr> :: pending_request"
  have r: "reachable ?hb three_pending"
    unfolding three_pending_def by (rule reachable_run_quiet) simp
  have a: "is_answer answer_b ''b''"
    by (simp add: is_answer_def answer_b_def)
  have ao: "answer_outcome answer_b = Resolved (Some (JNum 5))"
    by (simp add: answer_outcome_def answer_b_def)
  have p: "pending three_pending ''b'' = Some ?pr"
    and s: "settled three_pending = []" and o: "sockets three_pending 0 = Some OPEN"
    by (simp_all add: three_pending_def init_def invoke_def connect_def ws_readyState_def Let_def
        validateAndConnect_start_def validateAndConnect_resume_def connect_finally_def
        connectWs_def setAuthError_def setConnected_def notifySubscribers_def onopen_def)
  note first = settled_at_most_once[OF r, THEN conjunct2, THEN conjunct1, rule_format,
      of answer_b "''b''" ?pr]
  from first a p have
    h: "handleMessage ?hb answer_b three_pending =
          Some (three_pending\<lparr> timers := (timers three_pending)(2 := None),
                   pending := (pending three_pending)(''b'' := None),
                   settled := [(1, Resolved (Some (JNum 5)))] \<rparr>)"
    by (simp add: ao s)
  have s1: "?s1 = three_pending\<lparr> timers := (timers three_pending)(2 := None),
                   pending := (pending three_pending)(''b'' := None),
                   settled := [(1, Resolved (Some (JNum 5)))] \<rparr>"
    using o h by (simp add: onmessage_def)
  have p1: "pending ?s1 ''b'' = None" unfolding s1 by simp
  from reachable_not_hung[OF r] have "\<not> hung ?s1" unfolding s1 by simp
  with r have r1: "reachable ?hb ?s1" by (rule reachable.after)
  have ni: "never_invokes ?hb ''b''" by (simp add: never_invokes_def quiet_def)
  note later = settled_at_most_once[OF r1, THEN conjunct2, THEN conjunct2, THEN conjunct2,
      rule_format, of answer_b "''b''" "[EAdvance 100]" 0]
  have l: "step ?hb (EMessage 0 (Some answer_b)) (run ?hb [EAdvance 100] ?s1) = run ?hb [EAdvance 100] ?s1"
    by (rule later) (simp add: a p1 ni del: step.simps)
  from r a ni p h r1 p1 l show ?thesis by blast
qed

text \<open>
  C2. Every invoke settles. In every reachable state, whatever the connection state,
  \<^verbatim>\<open>invoke\<close> starts a timer due 60000 milliseconds after the call that rejects the
  promise it returns. After any events whatsoever, once the clock has reached that time
  and the event loop has served the timers that are due, the promise is settled; this
  is on a page that has not hung meanwhile, and a page whose handlers never register a
  handler does not hang. If no response or error message for the id arrived, the promise
  is settled in no other way than by the error \<^verbatim>\<open>Command '<command>' timed out after 60s\<close>,
  and not before the 60 seconds are over.
\<close>

theorem invoke_settles_by_timeout:
  assumes "reachable hb s"
  shows "timers (snd (invoke rid c a s)) (next_timer s) =
           Some (now s + 60000, RequestTimeout rid c (fst (invoke rid c a s))) \<and>
         \<not> is_settled (snd (invoke rid c a s)) (fst (invoke rid c a s)) \<and>
         (\<forall>es. \<not> hung (run hb es (snd (invoke rid c a s))) \<and>
               now s + 60000 \<le> now (run hb es (snd (invoke rid c a s))) \<longrightarrow>
            is_settled (drain_timers (run hb es (snd (invoke rid c a s)))) (fst (invoke rid c a s))) \<and>
         ((\<forall>h payload x ev h'. CallListen ev h' \<notin> set (fst (hb h payload x))) \<longrightarrow>
            (\<forall>es. \<not> hung (run hb es (snd (invoke rid c a s))))) \<and>
         (\<forall>es out. (\<forall>e \<in> set es. \<not> answers rid e) \<and>
            (fst (invoke rid c a s), out) \<in> set (settled (drain_timers (run hb es (snd (invoke rid c a s))))) \<longrightarrow>
            out = Rejected (JStr (''Command '' @ [CHR 0x27] @ c @ [CHR 0x27] @ '' timed out after 60s'')) \<and>
            now s + 60000 \<le> now (run hb es (snd (invoke rid c a s))))"
proof -
  let ?p = "fst (invoke rid c a s)"
  let ?s1 = "snd (invoke rid c a s)"
  let ?due = "now s + 60000"
  from assms have c0: "consistent s" by (rule reachable_consistent)
  have p: "?p = next_promise s" by (simp add: invoke_fields)
  have c1: "consistent ?s1"
    using core_step_invoke[of "{}" s rid c a] c0 by (rule consistent_core_step)
  have a1: "awaiting ?p rid c ?due ?s1" unfolding p using c0 by (rule awaiting_invoke)
  from c0 have "\<not> is_settled s (next_promise s)"
    unfolding consistent_def settled_below_def by auto
  then have u1: "\<not> is_settled ?s1 ?p" by (simp add: p is_settled_def invoke_fields)
  then have q1: "only_timed_out ?p c ?due ?s1"
    unfolding only_timed_out_def is_settled_def by force
  have t1: "timers ?s1 (next_timer s) = Some (?due, RequestTimeout rid c ?p)"
    by (simp add: invoke_fields)
  have late: "is_settled (drain_timers (run hb es ?s1)) ?p"
    if "\<not> hung (run hb es ?s1) \<and> ?due \<le> now (run hb es ?s1)" for es
    using run_keeps[OF c1 a1, of hb es] that by (auto intro: drain_settles)
  have alive: "\<not> hung (run hb es ?s1)"
    if "\<forall>h payload x ev h'. CallListen ev h' \<notin> set (fst (hb h payload x))" for es
    using that by (rule run_never_hangs) (simp add: reachable_not_hung[OF assms])
  have silent: "out = Rejected (JStr (''Command '' @ [CHR 0x27] @ c @ [CHR 0x27] @ '' timed out after 60s'')) \<and>
                ?due \<le> now (run hb es ?s1)"
    if "(\<forall>e \<in> set es. \<not> answers rid e) \<and>
        (?p, out) \<in> set (settled (drain_timers (run hb es ?s1)))" for es out
  proof -
    from run_keeps[OF c1 a1, of hb es] that q1 have
      r: "consistent (run hb es ?s1)" "awaiting ?p rid c ?due (run hb es ?s1)"
      "only_timed_out ?p c ?due (run hb es ?s1)" by auto
    from fold_fire_keeps[OF r(1,2), of "due_timers (run hb es ?s1)"] r(3) have
      "only_timed_out ?p c ?due (drain_timers (run hb es ?s1))"
      "now (drain_timers (run hb es ?s1)) = now (run hb es ?s1)"
      by (simp_all add: drain_timers_def)
    with that have "out = Rejected (timeout_error c) \<and> ?due \<le> now (run hb es ?s1)"
      unfolding only_timed_out_def by auto
    then show ?thesis by (simp add: timeout_error_def)
  qed
  from t1 u1 late alive silent show ?thesis by blast
qed

theorem invoke_settles_by_timeout_witness:
  "reachable quiet (init None None) \<and> \<not> connected (init None None) \<and>
   \<not> hung (run quiet [EAdvance 60000] (snd (invoke ''a'' ''x'' None (init None None)))) \<and>
   now (init None None) + 60000 \<le>
     now (run quiet [EAdvance 60000] (snd (invoke ''a'' ''x'' None (init None None)))) \<and>
   \<not> answers ''a'' (EAdvance 60000) \<and>
   (fst (invoke ''a'' ''x'' None (init None None)), Rejected (JStr ''Command 'x' timed out after 60s'')) \<in>
     set (settled (drain_timers
       (run quiet [EAdvance 60000] (snd (invoke ''a'' ''x'' None (init None None))))))"
proof -
  let ?hb = "quiet :: handler_behaviour"
  let ?s0 = "init None None"
  let ?p = "fst (invoke ''a'' ''x'' None ?s0)"
  let ?s2 = "run ?hb [EAdvance 60000] (snd (invoke ''a'' ''x'' None ?s0))"
  have r: "reachable ?hb ?s0" by (rule reachable.fresh)
  have n: "now ?s0 + 60000 \<le> now ?s2" by (simp add: invoke_fields init_def)
  have q: "\<forall>e \<in> set [EAdvance 60000]. \<not> answers ''a'' e" by simp
  have nl: "\<forall>h payload x ev h'. CallListen ev h' \<notin> set (fst (?hb h payload x))"
    by (simp add: quiet_def)
  note alive = invoke_settles_by_timeout[OF r, of "''a''" "''x''" None, THEN conjunct2,
      THEN conjunct2, THEN conjunct2, THEN conjunct1, THEN mp, OF nl, THEN spec,
      of "[EAdvance 60000]"]
  from alive have nh: "\<not> hung ?s2" .
  note late = invoke_settles_by_timeout[OF r, of "''a''" "''x''" None, THEN conjunct2,
      THEN conjunct2, THEN conjunct1, rule_format, of "[EAdvance 60000]"]
  note silent = invoke_settles_by_timeout[OF r, of "''a''" "''x''" None, THEN conjunct2,
      THEN conjunct2, THEN conjunct2, THEN conjunct2, rule_format, of "[EAdvance 60000]"]
  from late nh n obtain out where out: "(?p, out) \<in> set (settled (drain_timers ?s2))"
    unfolding is_settled_def by force
  from silent[of out] q out have "out = Rejected (JStr ''Command 'x' timed out after 60s'')"
    by simp
  with out have m: "(?p, Rejected (JStr ''Command 'x' timed out after 60s'')) \<in>
      set (settled (drain_timers ?s2))"
    by simp
  have c: "\<not> connected ?s0" by (simp add: init_def)
  have na: "\<not> answers ''a'' (EAdvance 60000)" by simp
  from r c nh n na m show ?thesis by blast
qed

text \<open>
  C3. When the open event of a socket fires in a reachable state, that socket is the
  transport's current one, every queued frame is written to it once, in the order it was
  queued and after what was sent before, the queue is empty afterwards, the reconnect
  attempt counter is zero and the transport is connected. The socket cannot open a
  second time: a repeated open event changes nothing.
\<close>

theorem open_flushes_queue_in_order:
  assumes "reachable hb s" "sockets s k = Some CONNECTING"
  shows "sent (step hb (EOpen k) s) = sent s @ map (Pair k) (queue s) \<and>
         queue (step hb (EOpen k) s) = [] \<and>
         reconnectAttempt (step hb (EOpen k) s) = 0 \<and>
         connected (step hb (EOpen k) s) \<and>
         sockets (step hb (EOpen k) s) k = Some OPEN \<and>
         step hb (EOpen k) (step hb (EOpen k) s) = step hb (EOpen k) s"
proof -
  from reachable_conn_ok[OF assms(1)] assms(2) have wsk: "ws s = Some k"
    unfolding conn_ok_def by blast
  let ?s0 = "s\<lparr> sockets := (sockets s)(k \<mapsto> OPEN) \<rparr>"
  let ?s1 = "(setConnected True ?s0)\<lparr> reconnectAttempt := 0 \<rparr>"
  have ws1: "ws ?s1 = Some k" "sockets ?s1 k = Some OPEN"
    using wsk by (simp_all add: setConnected_def notifySubscribers_def)
  have q1: "queue ?s1 = queue s" "sent ?s1 = sent s"
    by (simp_all add: setConnected_def notifySubscribers_def)
  have "onopen ?s0 = (?s1\<lparr> sent := sent ?s1 @ map (Pair k) (queue ?s1) \<rparr>)\<lparr> queue := [] \<rparr>"
    by (simp add: onopen_def Let_def flush_queue_open[OF ws1])
  with assms(2) have st: "step hb (EOpen k) s =
      (?s1\<lparr> sent := sent s @ map (Pair k) (queue s) \<rparr>)\<lparr> queue := [] \<rparr>"
    by (simp add: q1)
  show ?thesis
    unfolding st by (simp add: setConnected_def notifySubscribers_def)
qed

theorem open_flushes_queue_in_order_witness:
  "reachable quiet two_queued \<and> sockets two_queued 0 = Some CONNECTING \<and>
   queue two_queued = [invoke_frame ''a'' ''get_data'' None, invoke_frame ''b'' ''get_data'' None] \<and>
   sent (step quiet (EOpen 0) two_queued) =
     [(0, invoke_frame ''a'' ''get_data'' None), (0, invoke_frame ''b'' ''get_data'' None)] \<and>
   queue (step quiet (EOpen 0) two_queued) = [] \<and>
   reconnectAttempt (step quiet (EOpen 0) two_queued) = 0"
proof -
  have r: "reachable quiet two_queued"
    unfolding two_queued_def by (rule reachable_run_quiet) simp
  have c: "sockets two_queued 0 = Some CONNECTING"
    and q: "queue two_queued = [invoke_frame ''a'' ''get_data'' None, invoke_frame ''b'' ''get_data'' None]"
    and s: "sent two_queued = []"
    by (simp_all add: two_queued_def init_def invoke_def connect_def ws_readyState_def Let_def
        validateAndConnect_start_def validateAndConnect_resume_def connect_finally_def
        connectWs_def setAuthError_def notifySubscribers_def)
  from open_flushes_queue_in_order[OF r c] r c q s show ?thesis by simp
qed

text \<open>
  C4, as the code has it. When the pre-flight check comes back rejected in a reachable
  state, the stored token is removed, the auth error is set, and no timer is started or
  cancelled by that step. The state is terminal: after any further events an auth error
  is still set, the storage still holds no token, no pre-flight check is in flight, no
  socket has been created and \<^verbatim>\<open>scheduleReconnect\<close> does nothing, so that no reconnect
  timer is started while the auth error is set: every reconnect timer that is live
  afterwards was pending already when the rejection arrived, and when none was pending
  then, none is live afterwards.
\<close>

theorem rejected_token_is_terminal:
  assumes "reachable hb s" "fetching s \<noteq> []"
  shows "storage_token (step hb (EAuth AuthRejected) s) = None \<and>
         authError (step hb (EAuth AuthRejected) s) =
           Some ''Invalid access token. Check the URL in Jean's Web Access settings.'' \<and>
         timers (step hb (EAuth AuthRejected) s) = timers s \<and>
         reconnectTimer (step hb (EAuth AuthRejected) s) = reconnectTimer s \<and>
         (\<forall>es. truthy_str (authError (run hb es (step hb (EAuth AuthRejected) s))) \<and>
               storage_token (run hb es (step hb (EAuth AuthRejected) s)) = None \<and>
               fetching (run hb es (step hb (EAuth AuthRejected) s)) = [] \<and>
               next_sock (run hb es (step hb (EAuth AuthRejected) s)) = next_sock s \<and>
               scheduleReconnect (run hb es (step hb (EAuth AuthRejected) s)) =
                 run hb es (step hb (EAuth AuthRejected) s) \<and>
               (\<forall>t d. timers (run hb es (step hb (EAuth AuthRejected) s)) t = Some (d, ReconnectTimer) \<longrightarrow>
                      timers s t = Some (d, ReconnectTimer))) \<and>
         ((\<forall>t d. timers s t \<noteq> Some (d, ReconnectTimer)) \<longrightarrow>
            (\<forall>es t d. timers (run hb es (step hb (EAuth AuthRejected) s)) t \<noteq> Some (d, ReconnectTimer)))"
proof -
  let ?s1 = "step hb (EAuth AuthRejected) s"
  from assms(2) obtain token rest where f: "fetching s = token # rest" by (cases "fetching s") auto
  have s1: "?s1 = connect_finally (setAuthError
      (Some ''Invalid access token. Check the URL in Jean's Web Access settings.'')
      (s\<lparr> fetching := rest, storage_token := None \<rparr>))"
    using f by (simp add: validateAndConnect_resume_def)
  have now1: "storage_token ?s1 = None"
     "authError ?s1 = Some ''Invalid access token. Check the URL in Jean's Web Access settings.''"
     "timers ?s1 = timers s" "reconnectTimer ?s1 = reconnectTimer s" "next_sock ?s1 = next_sock s"
    unfolding s1 by (simp_all add: connect_finally_def setAuthError_def notifySubscribers_def)
  have k: "auth_failed ?s1"
    using rejected_auth_failed[OF reachable_conn_ok[OF assms(1)] assms(2)] .
  have later: "truthy_str (authError (run hb es ?s1)) \<and> storage_token (run hb es ?s1) = None \<and>
      fetching (run hb es ?s1) = [] \<and> next_sock (run hb es ?s1) = next_sock s \<and>
      scheduleReconnect (run hb es ?s1) = run hb es ?s1 \<and>
      (\<forall>t d. timers (run hb es ?s1) t = Some (d, ReconnectTimer) \<longrightarrow>
             timers s t = Some (d, ReconnectTimer))" for es
  proof -
    from auth_failed_run[OF k, of hb es] have
      a: "auth_failed (run hb es ?s1)" and n: "no_new_reconnect ?s1 (run hb es ?s1)"
      and x: "next_sock (run hb es ?s1) = next_sock ?s1" by simp_all
    from a have "truthy_str (authError (run hb es ?s1))" "storage_token (run hb es ?s1) = None"
      "fetching (run hb es ?s1) = []" by (simp_all add: auth_failed_def)
    moreover from this(1) have "scheduleReconnect (run hb es ?s1) = run hb es ?s1"
      by (rule scheduleReconnect_auth_error)
    moreover from n now1(3) have "\<forall>t d. timers (run hb es ?s1) t = Some (d, ReconnectTimer) \<longrightarrow>
             timers s t = Some (d, ReconnectTimer)"
      by (simp add: no_new_reconnect_def)
    ultimately show ?thesis using x now1(5) by simp
  qed
  have none: "timers (run hb es ?s1) t \<noteq> Some (d, ReconnectTimer)"
    if "\<forall>t d. timers s t \<noteq> Some (d, ReconnectTimer)" for es t d
    using later[of es] that by blast
  from now1 later none show ?thesis by blast
qed

theorem rejected_token_is_terminal_witness:
  "reachable quiet awaiting_auth \<and> fetching awaiting_auth \<noteq> [] \<and>
   storage_token awaiting_auth = Some ''tok'' \<and> timers awaiting_auth = Map.empty \<and>
   storage_token (step quiet (EAuth AuthRejected) awaiting_auth) = None \<and>
   truthy_str (authError (run quiet [EInvoke ''a'' ''get_data'' None, EAdvance 60000, ETimer 1]
     (step quiet (EAuth AuthRejected) awaiting_auth))) \<and>
   scheduleReconnect (run quiet [EInvoke ''a'' ''get_data'' None, EAdvance 60000, ETimer 1]
     (step quiet (EAuth AuthRejected) awaiting_auth)) =
     run quiet [EInvoke ''a'' ''get_data'' None, EAdvance 60000, ETimer 1]
     (step quiet (EAuth AuthRejected) awaiting_auth) \<and>
   reconnectTimer (step quiet (EAuth AuthRejected) awaiting_auth) = None \<and>
   timers (run quiet [EClose 0] (step quiet (EAuth AuthRejected) awaiting_auth)) 1 = None"
proof -
  have r: "reachable quiet awaiting_auth"
    unfolding awaiting_auth_def by (rule reachable_step_init) simp
  have f: "fetching awaiting_auth = [''tok'']" and t: "storage_token awaiting_auth = Some ''tok''"
    and tm: "timers awaiting_auth = Map.empty" and rt: "reconnectTimer awaiting_auth = None"
    by (simp_all add: awaiting_auth_def init_def connect_def ws_readyState_def Let_def
        validateAndConnect_start_def)
  then have ne: "fetching awaiting_auth \<noteq> []" by simp
  note th = rejected_token_is_terminal[OF r ne]
  from tm have nt: "\<forall>t d. timers awaiting_auth t \<noteq> Some (d, ReconnectTimer)" by simp
  from th nt have "\<forall>d. timers (run quiet [EClose 0] (step quiet (EAuth AuthRejected) awaiting_auth)) 1 \<noteq>
      Some (d, ReconnectTimer)"
    by blast
  moreover have "timers (run quiet [EClose 0] (step quiet (EAuth AuthRejected) awaiting_auth)) 1 = None \<or>
      (\<exists>d. timers (run quiet [EClose 0] (step quiet (EAuth AuthRejected) awaiting_auth)) 1 =
             Some (d, ReconnectTimer))"
    by (simp add: awaiting_auth_def init_def connect_def ws_readyState_def Let_def
        validateAndConnect_start_def validateAndConnect_resume_def connect_finally_def
        setAuthError_def notifySubscribers_def)
  ultimately have l: "timers (run quiet [EClose 0] (step quiet (EAuth AuthRejected) awaiting_auth)) 1 = None"
    by blast
  from th have rt1: "reconnectTimer (step quiet (EAuth AuthRejected) awaiting_auth) = reconnectTimer awaiting_auth"
    by blast
  with rt have rt2: "reconnectTimer (step quiet (EAuth AuthRejected) awaiting_auth) = None" by simp
  from th r ne t tm rt2 l show ?thesis by blast
qed

text \<open>
  C4, as stated, fails: a reconnect timer can be live while the auth error is set. On a
  page whose socket has closed, the reconnect timer is pending when a command starts a
  new pre-flight check; when that check is rejected the auth error is set and the timer
  is left as it is. It fires a millisecond later and runs \<^verbatim>\<open>connect\<close>, which finds no
  token any more.
\<close>

theorem rejection_keeps_pending_reconnect_timer:
  "reachable quiet recheck_while_timer_pending \<and> fetching recheck_while_timer_pending = [''tok''] \<and>
   authError (step quiet (EAuth AuthRejected) recheck_while_timer_pending) =
     Some ''Invalid access token. Check the URL in Jean's Web Access settings.'' \<and>
   reconnectTimer (step quiet (EAuth AuthRejected) recheck_while_timer_pending) = Some 1 \<and>
   timers (step quiet (EAuth AuthRejected) recheck_while_timer_pending) 1 = Some (1000, ReconnectTimer) \<and>
   now (step quiet (EAuth AuthRejected) recheck_while_timer_pending) = 999 \<and>
   timers (run quiet [EAdvance 1, ETimer 1] (step quiet (EAuth AuthRejected) recheck_while_timer_pending)) 1 =
     None \<and>
   authError (run quiet [EAdvance 1, ETimer 1] (step quiet (EAuth AuthRejected) recheck_while_timer_pending)) =
     Some ''No access token provided. Use the URL from Jean's Web Access settings.''"
proof -
  have r: "reachable quiet recheck_while_timer_pending"
    unfolding recheck_while_timer_pending_def by (rule reachable_run_quiet) simp
  have "fetching recheck_while_timer_pending = [''tok'']"
    "authError (step quiet (EAuth AuthRejected) recheck_while_timer_pending) =
       Some ''Invalid access token. Check the URL in Jean's Web Access settings.''"
    "reconnectTimer (step quiet (EAuth AuthRejected) recheck_while_timer_pending) = Some 1"
    "timers (step quiet (EAuth AuthRejected) recheck_while_timer_pending) 1 = Some (1000, ReconnectTimer)"
    "now (step quiet (EAuth AuthRejected) recheck_while_timer_pending) = 999"
    "timers (run quiet [EAdvance 1, ETimer 1] (step quiet (EAuth AuthRejected) recheck_while_timer_pending)) 1 =
       None"
    "authError (run quiet [EAdvance 1, ETimer 1] (step quiet (EAuth AuthRejected) recheck_while_timer_pending)) =
       Some ''No access token provided. Use the URL from Jean's Web Access settings.''"
    by (simp_all add: recheck_while_timer_pending_def init_def invoke_def connect_def ws_readyState_def
        Let_def validateAndConnect_start_def validateAndConnect_resume_def connect_finally_def
        connectWs_def setAuthError_def setConnected_def notifySubscribers_def onopen_def onclose_def
        scheduleReconnect_def backoff_delay_def fire_timer_def)
  with r show ?thesis by blast
qed

text \<open>
  C5, as the code has it. When the pre-flight check cannot reach the backend, in a
  reachable state, no auth error is set afterwards and a reconnect timer is live and held
  by \<^verbatim>\<open>reconnectTimer\<close>. If none was pending, it is started by this step, due
  \<open>min (1000 * 2 ^ attempt) 30000\<close> milliseconds from now, and the attempt counter goes
  up by one; if one was pending, it is kept as it is, nothing is scheduled and the
  counter stays. In every step of the transport the counter either stays, or goes up by
  one together with such a scheduling, or is set to zero by a socket's open event, which
  leaves the transport connected.
\<close>

theorem unreachable_backend_schedules_backoff:
  assumes "reachable hb s" "fetching s \<noteq> []"
  shows "authError (step hb (EAuth AuthUnreachable) s) = None \<and>
         (\<exists>t d. reconnectTimer (step hb (EAuth AuthUnreachable) s) = Some t \<and>
                timers (step hb (EAuth AuthUnreachable) s) t = Some (d, ReconnectTimer)) \<and>
         (reconnectTimer s = None \<longrightarrow>
            reconnectTimer (step hb (EAuth AuthUnreachable) s) = Some (next_timer s) \<and>
            timers (step hb (EAuth AuthUnreachable) s) (next_timer s) =
              Some (now s + min (1000 * 2 ^ reconnectAttempt s) 30000, ReconnectTimer) \<and>
            reconnectAttempt (step hb (EAuth AuthUnreachable) s) = reconnectAttempt s + 1) \<and>
         (reconnectTimer s \<noteq> None \<longrightarrow>
            reconnectTimer (step hb (EAuth AuthUnreachable) s) = reconnectTimer s \<and>
            timers (step hb (EAuth AuthUnreachable) s) = timers s \<and>
            reconnectAttempt (step hb (EAuth AuthUnreachable) s) = reconnectAttempt s) \<and>
         (\<forall>e s0. reconnectAttempt (step hb e s0) = reconnectAttempt s0 \<or>
                 scheduled_here s0 (step hb e s0) \<or>
                 (\<exists>k. e = EOpen k) \<and> reconnectAttempt (step hb e s0) = 0 \<and>
                   connected (step hb e s0))"
proof -
  let ?s' = "step hb (EAuth AuthUnreachable) s"
  from assms(2) obtain token rest where f: "fetching s = token # rest"
    by (cases "fetching s") auto
  let ?s1 = "setAuthError None (s\<lparr> fetching := rest \<rparr>)"
  have s': "?s' = connect_finally (scheduleReconnect ?s1)"
    using f by (simp add: validateAndConnect_resume_def)
  have s1: "authError ?s1 = None" "reconnectTimer ?s1 = reconnectTimer s" "timers ?s1 = timers s"
    "next_timer ?s1 = next_timer s" "now ?s1 = now s" "reconnectAttempt ?s1 = reconnectAttempt s"
    by (simp_all add: setAuthError_def notifySubscribers_def)
  have a: "authError ?s' = None"
    unfolding s' using scheduleReconnect_cases[of ?s1] s1
    by (auto simp: connect_finally_def)
  have n: "reconnectTimer ?s' = Some (next_timer s) \<and>
           timers ?s' (next_timer s) =
             Some (now s + min (1000 * 2 ^ reconnectAttempt s) 30000, ReconnectTimer) \<and>
           reconnectAttempt ?s' = reconnectAttempt s + 1" if "reconnectTimer s = None"
    unfolding s' using scheduleReconnect_cases[of ?s1] s1 that
    by (auto simp: connect_finally_def)
  have o: "reconnectTimer ?s' = reconnectTimer s \<and> timers ?s' = timers s \<and>
           reconnectAttempt ?s' = reconnectAttempt s" if "reconnectTimer s \<noteq> None"
    unfolding s' using scheduleReconnect_cases[of ?s1] s1 that
    by (auto simp: connect_finally_def)
  from n o have set: "reconnectTimer ?s' \<noteq> None" by (cases "reconnectTimer s") auto
  from assms(1) have "consistent s" by (rule reachable_consistent)
  with core_steps_step[of "EAuth AuthUnreachable" s hb] have "consistent ?s'"
    by (rule consistent_core_steps)
  note this
  with set have live: "\<exists>t d. reconnectTimer ?s' = Some t \<and> timers ?s' t = Some (d, ReconnectTimer)"
    unfolding consistent_def reconnect_armed_def by auto
  from a live n o reconnectAttempt_step show ?thesis by blast
qed

theorem unreachable_backend_schedules_backoff_witness:
  "reachable quiet awaiting_auth \<and> fetching awaiting_auth \<noteq> [] \<and>
   reconnectTimer awaiting_auth = None \<and> reconnectAttempt awaiting_auth = 0 \<and>
   now awaiting_auth = 0 \<and> next_timer awaiting_auth = 1 \<and>
   authError (step quiet (EAuth AuthUnreachable) awaiting_auth) = None \<and>
   timers (step quiet (EAuth AuthUnreachable) awaiting_auth) 1 = Some (1000, ReconnectTimer) \<and>
   reconnectAttempt (step quiet (EAuth AuthUnreachable) awaiting_auth) = 1"
proof -
  have r: "reachable quiet awaiting_auth"
    unfolding awaiting_auth_def by (rule reachable_step_init) simp
  have f: "fetching awaiting_auth = [''tok'']" and v: "reconnectTimer awaiting_auth = None"
    "reconnectAttempt awaiting_auth = 0" "now awaiting_auth = 0" "next_timer awaiting_auth = 1"
    by (simp_all add: awaiting_auth_def init_def connect_def ws_readyState_def Let_def
        validateAndConnect_start_def)
  then have ne: "fetching awaiting_auth \<noteq> []" by simp
  from unreachable_backend_schedules_backoff[OF r ne] r ne v show ?thesis by simp
qed

text \<open>
  C5, as stated, fails: a network-level failure does not always schedule a reconnect
  with the backoff delay of the current attempt. On the page whose reconnect timer is
  pending while the check runs, the failure schedules nothing: the timers and the
  attempt counter stay as they are, and the retry comes from the old timer, due at 1000,
  one millisecond later, not \<open>min (1000 * 2 ^ 1) 30000\<close> milliseconds later.
\<close>

theorem pending_timer_blocks_backoff:
  "reachable quiet recheck_while_timer_pending \<and> fetching recheck_while_timer_pending = [''tok''] \<and>
   reconnectAttempt recheck_while_timer_pending = 1 \<and> now recheck_while_timer_pending = 999 \<and>
   authError (step quiet (EAuth AuthUnreachable) recheck_while_timer_pending) = None \<and>
   timers (step quiet (EAuth AuthUnreachable) recheck_while_timer_pending) =
     timers recheck_while_timer_pending \<and>
   next_timer (step quiet (EAuth AuthUnreachable) recheck_while_timer_pending) =
     next_timer recheck_while_timer_pending \<and>
   reconnectAttempt (step quiet (EAuth AuthUnreachable) recheck_while_timer_pending) = 1 \<and>
   reconnectTimer (step quiet (EAuth AuthUnreachable) recheck_while_timer_pending) = Some 1 \<and>
   timers (step quiet (EAuth AuthUnreachable) recheck_while_timer_pending) 1 = Some (1000, ReconnectTimer) \<and>
   999 + min (1000 * 2 ^ 1) 30000 = (2999 :: nat)"
proof -
  have r: "reachable quiet recheck_while_timer_pending"
    unfolding recheck_while_timer_pending_def by (rule reachable_run_quiet) simp
  have "fetching recheck_while_timer_pending = [''tok'']"
    "reconnectAttempt recheck_while_timer_pending = 1" "now recheck_while_timer_pending = 999"
    "authError (step quiet (EAuth AuthUnreachable) recheck_while_timer_pending) = None"
    "timers (step quiet (EAuth AuthUnreachable) recheck_while_timer_pending) =
       timers recheck_while_timer_pending"
    "next_timer (step quiet (EAuth AuthUnreachable) recheck_while_timer_pending) =
       next_timer recheck_while_timer_pending"
    "reconnectAttempt (step quiet (EAuth AuthUnreachable) recheck_while_timer_pending) = 1"
    "reconnectTimer (step quiet (EAuth AuthUnreachable) recheck_while_timer_pending) = Some 1"
    "timers (step quiet (EAuth AuthUnreachable) recheck_while_timer_pending) 1 = Some (1000, ReconnectTimer)"
    by (simp_all add: recheck_while_timer_pending_def init_def invoke_def connect_def ws_readyState_def
        Let_def validateAndConnect_start_def validateAndConnect_resume_def connect_finally_def
        connectWs_def setAuthError_def setConnected_def notifySubscribers_def onopen_def onclose_def
        scheduleReconnect_def backoff_delay_def)
  with r show ?thesis by simp
qed

text \<open>
  C6. Handling a socket's close event in a reachable state leaves the pending table and
  the settlement log unchanged: no request is rejected. Every request pending at that
  moment is unsettled afterwards and keeps its own expiry timer.
\<close>

theorem close_rejects_nothing:
  assumes "reachable hb s"
  shows "pending (step hb (EClose k) s) = pending s \<and>
         settled (step hb (EClose k) s) = settled s \<and>
         (\<forall>rid pr. pending s rid = Some pr \<longrightarrow>
            \<not> is_settled (step hb (EClose k) s) (promise pr) \<and>
            timers (step hb (EClose k) s) (timeout pr) = timers s (timeout pr) \<and>
            (\<exists>d c. timers s (timeout pr) = Some (d, RequestTimeout rid c (promise pr))))"
proof -
  let ?s' = "step hb (EClose k) s"
  have ps: "pending ?s' = pending s" "settled ?s' = settled s"
    by (simp_all add: onclose_def)
  from assms have c: "consistent s" by (rule reachable_consistent)
  have tm: "timers ?s' t = timers s t" if "timers s t \<noteq> None" for t
  proof -
    from c that have lt: "t < next_timer s" unfolding consistent_def timers_below_def by auto
    let ?s0 = "setConnected False (s\<lparr> sockets := (sockets s)(k \<mapsto> CLOSED) \<rparr>)"
    from scheduleReconnect_timers[of ?s0] lt have "timers (scheduleReconnect ?s0) t = timers s t"
      by auto
    then show ?thesis by (simp add: onclose_def)
  qed
  have "\<not> is_settled ?s' (promise pr) \<and> timers ?s' (timeout pr) = timers s (timeout pr) \<and>
        (\<exists>d c. timers s (timeout pr) = Some (d, RequestTimeout rid c (promise pr)))"
    if "pending s rid = Some pr" for rid pr
  proof -
    from c that obtain d c where
      t: "timers s (timeout pr) = Some (d, RequestTimeout rid c (promise pr))"
      unfolding consistent_def pending_armed_def by blast
    then have "armed s (promise pr)" unfolding armed_def by blast
    with c have "\<not> is_settled s (promise pr)"
      unfolding consistent_def armed_unsettled_def by blast
    with ps(2) have "\<not> is_settled ?s' (promise pr)" by (simp add: is_settled_def)
    moreover from t have "timers ?s' (timeout pr) = timers s (timeout pr)" by (intro tm) simp
    ultimately show ?thesis using t by blast
  qed
  with ps show ?thesis by blast
qed

theorem close_rejects_nothing_witness:
  "reachable quiet three_pending \<and>
   pending three_pending ''b'' = Some \<lparr> promise = 1, timeout = 2 \<rparr> \<and>
   pending (step quiet (EClose 0) three_pending) = pending three_pending \<and>
   settled (step quiet (EClose 0) three_pending) = [] \<and>
   timers (step quiet (EClose 0) three_pending) 2 =
     Some (60000, RequestTimeout ''b'' ''y'' 1)"
proof -
  have r: "reachable quiet three_pending"
    unfolding three_pending_def by (rule reachable_run_quiet) simp
  have p: "pending three_pending ''b'' = Some \<lparr> promise = 1, timeout = 2 \<rparr>"
    and t: "timers three_pending 2 = Some (60000, RequestTimeout ''b'' ''y'' 1)"
    and s: "settled three_pending = []"
    by (simp_all add: three_pending_def init_def invoke_def connect_def ws_readyState_def Let_def
        validateAndConnect_start_def validateAndConnect_resume_def connect_finally_def
        connectWs_def setAuthError_def setConnected_def notifySubscribers_def onopen_def)
  let ?c = "step quiet (EClose 0) three_pending"
  from close_rejects_nothing[OF r, of 0] have
    a: "pending ?c = pending three_pending" "settled ?c = settled three_pending"
    and b: "\<And>rid pr. pending three_pending rid = Some pr \<Longrightarrow>
              timers ?c (timeout pr) = timers three_pending (timeout pr)"
    by blast+
  from b[OF p] have "timers ?c 2 = timers three_pending 2" by simp
  with a r p t s show ?thesis by simp
qed

text \<open>
  C7. The function returned by \<^verbatim>\<open>listen(event, handler)\<close> is idempotent: calling it twice
  leaves the listener map as calling it once does. It cannot throw: both of its
  statements go through \<^verbatim>\<open>?.\<close>, and the model has no failing branch for it. It leaves no
  empty handler set behind: the event name is never mapped to an empty set afterwards,
  it is absent once its last handler is removed, other event names are untouched, and
  in every reachable state no event name at all is mapped to an empty set.
\<close>

theorem unlisten_idempotent:
  "unlisten ev h (unlisten ev h s) = unlisten ev h s \<and>
   listeners (unlisten ev h s) ev \<noteq> Some [] \<and>
   (\<forall>hs. listeners s ev = Some hs \<and> set hs \<subseteq> {h} \<longrightarrow> listeners (unlisten ev h s) ev = None) \<and>
   (\<forall>e. e \<noteq> ev \<longrightarrow> listeners (unlisten ev h s) e = listeners s e) \<and>
   (reachable hb s \<longrightarrow> (\<forall>e. listeners s e \<noteq> Some [] \<and> listeners (unlisten ev h s) e \<noteq> Some []))"
proof (intro conjI allI impI)
  show "unlisten ev h (unlisten ev h s) = unlisten ev h s" by (rule unlisten_twice)
  show "listeners (unlisten ev h s) ev \<noteq> Some []"
    by (auto simp: unlisten_def Let_def split: option.splits list.splits)
  show "listeners (unlisten ev h s) ev = None" if "listeners s ev = Some hs \<and> set hs \<subseteq> {h}" for hs
  proof -
    from that have "set hs \<subseteq> {h}" by simp
    then have "removeAll h hs = []" by (induction hs) auto
    with that show ?thesis by (simp add: unlisten_def)
  qed
  show "listeners (unlisten ev h s) e = listeners s e" if "e \<noteq> ev" for e
    using that by (auto simp: unlisten_def Let_def split: option.splits list.splits)
  show "listeners s e \<noteq> Some []" if "reachable hb s" for e
    using reachable_no_empty[OF that] by (simp add: no_empty_sets_def)
  show "listeners (unlisten ev h s) e \<noteq> Some []" if "reachable hb s" for e
    using no_empty_unlisten[OF reachable_no_empty[OF that]] by (simp add: no_empty_sets_def)
qed

theorem unlisten_idempotent_witness:
  "unlisten ''status'' 1 (unlisten ''status'' 1 (unlisten ''status'' 2 two_listeners)) =
     unlisten ''status'' 1 (unlisten ''status'' 2 two_listeners) \<and>
   listeners (unlisten ''status'' 2 two_listeners) ''status'' = Some [1] \<and>
   listeners (unlisten ''status'' 1 (unlisten ''status'' 2 two_listeners)) ''status'' = None \<and>
   reachable quiet (unlisten ''status'' 2 two_listeners)"
proof -
  let ?hb = "quiet :: handler_behaviour"
  let ?s = "unlisten ''status'' 2 two_listeners"
  have "?s = run ?hb [EListen ''status'' 1, EListen ''status'' 2, EUnlisten ''status'' 2]
               (init None (Some ''tok''))"
    by (simp add: two_listeners_def init_def)
  moreover have "reachable ?hb (run ?hb [EListen ''status'' 1, EListen ''status'' 2, EUnlisten ''status'' 2]
               (init None (Some ''tok'')))"
    by (rule reachable_run_quiet) simp
  ultimately have r: "reachable ?hb ?s" by simp
  have l: "listeners ?s ''status'' = Some [1]"
    by (simp add: two_listeners_def listen_def unlisten_def init_def Let_def)
  from unlisten_idempotent[of "''status''" 1 ?s ?hb] l r show ?thesis by simp
qed

text \<open>
  C8, as the code has it. Fan-out isolates a handler that throws: the throw costs a
  \<^verbatim>\<open>console.error\<close> line and the loop goes on. But the loop iterates the handler set
  itself, so what it calls depends on what the handlers do to that set while it runs.
  When an event message arrives for an event name with handlers \<open>hs\<close>, then, whichever
  handlers throw:
  if no handler registers or unregisters a handler of that event name meanwhile,
  \<^verbatim>\<open>handleMessage\<close> returns and has called exactly the handlers of \<open>hs\<close> with the
  payload, each once, in order, so that no handler of another event name is called;
  if no handler registers a handler of that event name meanwhile, \<^verbatim>\<open>handleMessage\<close>
  returns;
  whenever it returns, every handler of \<open>hs\<close> that no handler has unregistered
  meanwhile has been called with the payload;
  and whenever it returns, every call it has made was with the payload of this message,
  and the handlers of any event name that no handler has registered or unregistered
  meanwhile are the same as before.
\<close>

theorem fan_out_isolates_throwing_handler:
  assumes "get_prop msg ''type'' = Some (JStr ''event'')" "get_prop msg ''event'' = Some (JStr ev)"
    "ev \<noteq> []" "listeners s ev = Some hs"
  shows "((\<forall>h x. \<forall>c \<in> set (fst (hb h (get_prop msg ''payload'') x)). \<not> touches ev c) \<longrightarrow>
            (\<exists>s'. fan_loop hb ev (get_prop msg ''payload'') (Some hs) s = Some s' \<and>
                  handleMessage hb msg s = Some s' \<and> hung s' = hung s \<and>
                  delivered s' = delivered s @ map (\<lambda>h. (h, get_prop msg ''payload'')) hs)) \<and>
         ((\<forall>h x h'. CallListen ev h' \<notin> set (fst (hb h (get_prop msg ''payload'') x))) \<longrightarrow>
            (\<exists>s'. fan_loop hb ev (get_prop msg ''payload'') (Some hs) s = Some s' \<and>
                  handleMessage hb msg s = Some s')) \<and>
         (\<forall>h s'. h \<in> set hs \<and> fan_loop hb ev (get_prop msg ''payload'') (Some hs) s = Some s' \<and>
            (\<forall>h' x. CallUnlisten ev h \<notin> set (fst (hb h' (get_prop msg ''payload'') x))) \<longrightarrow>
            handleMessage hb msg s = Some s' \<and>
            (h, get_prop msg ''payload'') \<in> set (drop (length (delivered s)) (delivered s'))) \<and>
         (\<forall>s'. fan_loop hb ev (get_prop msg ''payload'') (Some hs) s = Some s' \<longrightarrow>
            (\<forall>d \<in> set (drop (length (delivered s)) (delivered s')). snd d = get_prop msg ''payload'') \<and>
            (\<forall>ev'. (\<forall>h x. \<forall>c \<in> set (fst (hb h (get_prop msg ''payload'') x)). \<not> touches ev' c) \<longrightarrow>
               listeners s' ev' = listeners s ev'))"
proof (intro conjI allI impI ballI)
  let ?pl = "get_prop msg ''payload''"
  note hm = handleMessage_event[OF assms, of hb]
  have ret: "handleMessage hb msg s = Some s'" if "fan_loop hb ev ?pl (Some hs) s = Some s'" for s'
    using hm that by (simp add: fan_out_def)
  show "\<exists>s'. fan_loop hb ev ?pl (Some hs) s = Some s' \<and> handleMessage hb msg s = Some s' \<and>
             hung s' = hung s \<and> delivered s' = delivered s @ map (\<lambda>h. (h, ?pl)) hs"
    if "\<forall>h x. \<forall>c \<in> set (fst (hb h ?pl x)). \<not> touches ev c"
    using fan_loop_untouched[where hb = hb and payload = ?pl and ev = ev and hs = hs and s = s, OF that]
      ret by blast
  show "\<exists>s'. fan_loop hb ev ?pl (Some hs) s = Some s' \<and> handleMessage hb msg s = Some s'"
    if "\<forall>h x h'. CallListen ev h' \<notin> set (fst (hb h ?pl x))"
    using fan_loop_terminates[of ev hb ?pl "Some hs" s, OF that] ret by blast
  show "handleMessage hb msg s = Some s'"
    if "h \<in> set hs \<and> fan_loop hb ev ?pl (Some hs) s = Some s' \<and>
        (\<forall>h' x. CallUnlisten ev h \<notin> set (fst (hb h' ?pl x)))" for h s'
    using that ret by blast
  show "(h, ?pl) \<in> set (drop (length (delivered s)) (delivered s'))"
    if "h \<in> set hs \<and> fan_loop hb ev ?pl (Some hs) s = Some s' \<and>
        (\<forall>h' x. CallUnlisten ev h \<notin> set (fst (hb h' ?pl x)))" for h s'
  proof -
    from that have l: "fan_loop hb ev ?pl (Some hs) s = Some s'"
      and u: "\<forall>h' x. CallUnlisten ev h \<notin> set (fst (hb h' ?pl x))" and h: "h \<in> set hs"
      by simp_all
    from fan_loop_delivers[OF l u] h assms(4) show ?thesis by simp
  qed
  show "snd d = ?pl"
    if "fan_loop hb ev ?pl (Some hs) s = Some s'"
      and "d \<in> set (drop (length (delivered s)) (delivered s'))" for s' d
    using fan_loop_payload[OF that(1)] that(2) by auto
  show "listeners s' ev' = listeners s ev'"
    if "fan_loop hb ev ?pl (Some hs) s = Some s'"
      and "\<forall>h x. \<forall>c \<in> set (fst (hb h ?pl x)). \<not> touches ev' c" for s' ev'
    using that by (rule fan_loop_other_listeners)
qed

theorem fan_out_isolates_throwing_handler_witness:
  "listeners two_listeners ''status'' = Some [1, 2] \<and>
   snd (first_throws 1 (Some (JNum 7)) two_listeners) = Some ''boom'' \<and>
   map_option delivered (handleMessage first_throws status_event two_listeners) =
     Some [(1, Some (JNum 7)), (2, Some (JNum 7))] \<and>
   map_option console_errors (handleMessage first_throws status_event two_listeners) =
     Some [(''status'', ''boom'')] \<and>
   (2, Some (JNum 7)) \<in> set (delivered (the (handleMessage first_throws status_event two_listeners)))"
proof -
  have l: "listeners two_listeners ''status'' = Some [1, 2]"
    by (simp add: two_listeners_def listen_def init_def Let_def)
  have d: "delivered two_listeners = []" "console_errors two_listeners = []"
    by (simp_all add: two_listeners_def listen_def init_def Let_def connect_def
          validateAndConnect_start_def)
  have m: "get_prop status_event ''type'' = Some (JStr ''event'')"
    "get_prop status_event ''event'' = Some (JStr ''status'')"
    "get_prop status_event ''payload'' = Some (JNum 7)"
    by (simp_all add: status_event_def)
  have ne: "''status'' \<noteq> []" by simp
  note th = fan_out_isolates_throwing_handler[OF m(1,2) ne l, of first_throws, unfolded m(3)]
  have nt: "\<forall>h x. \<forall>c \<in> set (fst (first_throws h (Some (JNum 7)) x)). \<not> touches ''status'' c"
    by (simp add: first_throws_def)
  from th nt obtain s' where
    s': "fan_loop first_throws ''status'' (Some (JNum 7)) (Some [1, 2]) two_listeners = Some s'"
      "handleMessage first_throws status_event two_listeners = Some s'"
      "delivered s' = delivered two_listeners @ map (\<lambda>h. (h, Some (JNum 7))) [1, 2]"
    by blast
  have nu: "\<forall>h' x. CallUnlisten ''status'' 2 \<notin> set (fst (first_throws h' (Some (JNum 7)) x))"
    by (simp add: first_throws_def)
  from th s'(1) nu have
    "(2, Some (JNum 7)) \<in> set (drop (length (delivered two_listeners)) (delivered s'))"
    by simp
  with d(1) have two: "(2, Some (JNum 7)) \<in> set (delivered s')" by simp
  have nn: "status_event \<noteq> JNull" by (simp add: status_event_def)
  have ce: "map_option console_errors (handleMessage first_throws status_event two_listeners) =
      Some [(''status'', ''boom'')]"
    using l d(2) m nn
    by (simp add: handleMessage_def fan_out_def fan_loop_Cons first_throws_def Let_def)
  have t: "snd (first_throws 1 (Some (JNum 7)) two_listeners) = Some ''boom''"
    by (simp add: first_throws_def)
  from l t s'(2,3) d(1) two ce show ?thesis by simp
qed

text \<open>
  C8, as stated, fails: not every handler registered under the event name is called.
  With two handlers of \<^verbatim>\<open>status\<close>, of which the first unregisters the second and then
  throws, the message is delivered to the first handler only; the second, which was
  registered when the message arrived, is never called.
\<close>

theorem unregistered_handler_is_skipped:
  "listeners two_listeners ''status'' = Some [1, 2] \<and>
   first_unlistens_second 1 (Some (JNum 7)) two_listeners = ([CallUnlisten ''status'' 2], Some ''boom'') \<and>
   map_option delivered (handleMessage first_unlistens_second status_event two_listeners) =
     Some [(1, Some (JNum 7))] \<and>
   map_option console_errors (handleMessage first_unlistens_second status_event two_listeners) =
     Some [(''status'', ''boom'')] \<and>
   map_option hung (handleMessage first_unlistens_second status_event two_listeners) = Some False \<and>
   listeners (the (handleMessage first_unlistens_second status_event two_listeners)) ''status'' =
     Some [1]"
proof -
  have m: "get_prop status_event ''type'' = Some (JStr ''event'')"
    "get_prop status_event ''event'' = Some (JStr ''status'')"
    "get_prop status_event ''payload'' = Some (JNum 7)" "status_event \<noteq> JNull"
    by (simp_all add: status_event_def)
  show ?thesis
    using two_listeners_fields m
    by (simp add: handleMessage_def fan_out_def fan_loop_Cons first_unlistens_second_def Let_def
        listeners_unlisten)
qed

text \<open>
  C9 at two failing inputs. The pass does not invalidate every entry that the preloader
  has not seeded. With a snapshot whose UI state is \<^verbatim>\<open>null\<close>, seeding writes the projects,
  the worktrees, the sessions and the preferences; the \<^verbatim>\<open>ui-state\<close> query is not seeded,
  nor is the sessions-with-counts query, which is never seeded; and of the three unseeded
  queries the pass invalidates the git status only. With a snapshot in which the sessions
  of a worktree lack their \<^verbatim>\<open>sessions\<close> array, \<^verbatim>\<open>seedCache\<close> throws before it reaches the
  preferences, and the preferences query, which was not seeded, is not invalidated
  either.
\<close>

theorem unseeded_entry_not_invalidated:
  "seeded_keys std_keys (Some snapshot) =
     {[JStr ''projects''], [JStr ''projects'', JStr ''p1'', JStr ''worktrees''],
      [JStr ''chat'', JStr ''sessions'', JStr ''w1''], [JStr ''preferences'']} \<and>
   queryKey ui_state_query \<notin> seeded_keys std_keys (Some snapshot) \<and>
   queryKey with_counts_query \<notin> seeded_keys std_keys (Some snapshot) \<and>
   queryKey git_status_query \<notin> seeded_keys std_keys (Some snapshot) \<and>
   on_ws_connected False True
     (on_preloaded std_keys (Some snapshot) [ui_state_query, with_counts_query, git_status_query]) =
   [ui_state_query, with_counts_query, git_status_query\<lparr> isInvalidated := True \<rparr>] @
   on_preloaded std_keys (Some snapshot) [] \<and>
   \<not> isInvalidated ui_state_query \<and> \<not> isInvalidated with_counts_query \<and>
   seedCache std_keys snapshot_without_sessions [] =
     Threw (on_preloaded std_keys (Some snapshot_without_sessions) []) \<and>
   seeded_keys std_keys (Some snapshot_without_sessions) =
     {[JStr ''projects''], [JStr ''projects'', JStr ''p1'', JStr ''worktrees''],
      [JStr ''chat'', JStr ''sessions'', JStr ''w1'']} \<and>
   queryKey preferences_query \<notin> seeded_keys std_keys (Some snapshot_without_sessions) \<and>
   on_ws_connected False True
     (on_preloaded std_keys (Some snapshot_without_sessions) [preferences_query, git_status_query]) =
   [preferences_query, git_status_query\<lparr> isInvalidated := True \<rparr>] @
   on_preloaded std_keys (Some snapshot_without_sessions) [] \<and>
   \<not> isInvalidated preferences_query"
proof -
  have sc: "scan_sessions (JObj [(''sessions'', JArr [])])" "scan_worktrees (JArr [])"
    "\<not> scan_sessions (JObj [])"
    by (simp_all add: scan_sessions_def scan_worktrees_def)
  have k: "seeded_keys std_keys (Some snapshot) =
     {[JStr ''projects''], [JStr ''projects'', JStr ''p1'', JStr ''worktrees''],
      [JStr ''chat'', JStr ''sessions'', JStr ''w1''], [JStr ''preferences'']}"
    using sc
    by (auto simp: seeded_keys_def on_preloaded_def seedCache_def seed_entries_def snapshot_def
        std_keys_def setQueryData_def Let_def)
  have rest: "on_ws_connected False True
     (on_preloaded std_keys (Some snapshot) [ui_state_query, with_counts_query, git_status_query]) =
   [ui_state_query, with_counts_query, git_status_query\<lparr> isInvalidated := True \<rparr>] @
   on_preloaded std_keys (Some snapshot) []"
    "\<not> isInvalidated ui_state_query" "\<not> isInvalidated with_counts_query"
    using sc
    by (simp_all add: on_ws_connected_def invalidateQueries_def invalidate_predicate_def first_key_def
      on_preloaded_def seedCache_def seed_entries_def snapshot_def std_keys_def Let_def
      setQueryData_def ui_state_query_def with_counts_query_def git_status_query_def)
  have keys: "queryKey ui_state_query = [JStr ''ui-state'']"
    "queryKey with_counts_query = [JStr ''chat'', JStr ''sessions'', JStr ''w1'', JStr ''with-counts'']"
    "queryKey git_status_query = [JStr ''git-status'', JStr ''w1'']"
    "queryKey preferences_query = [JStr ''preferences'']"
    by (simp_all add: ui_state_query_def with_counts_query_def git_status_query_def std_keys_def
        preferences_query_def)
  have thr: "seedCache std_keys snapshot_without_sessions [] =
     Threw (on_preloaded std_keys (Some snapshot_without_sessions) [])"
    using sc
    by (simp add: on_preloaded_def seedCache_def seed_entries_def snapshot_without_sessions_def
        std_keys_def setQueryData_def Let_def)
  have k2: "seeded_keys std_keys (Some snapshot_without_sessions) =
     {[JStr ''projects''], [JStr ''projects'', JStr ''p1'', JStr ''worktrees''],
      [JStr ''chat'', JStr ''sessions'', JStr ''w1'']}"
    using sc
    by (auto simp: seeded_keys_def on_preloaded_def seedCache_def seed_entries_def
        snapshot_without_sessions_def std_keys_def setQueryData_def Let_def)
  have rest2: "on_ws_connected False True
     (on_preloaded std_keys (Some snapshot_without_sessions) [preferences_query, git_status_query]) =
   [preferences_query, git_status_query\<lparr> isInvalidated := True \<rparr>] @
   on_preloaded std_keys (Some snapshot_without_sessions) []"
    "\<not> isInvalidated preferences_query"
    using sc
    by (simp_all add: on_ws_connected_def invalidateQueries_def invalidate_predicate_def first_key_def
      on_preloaded_def seedCache_def seed_entries_def snapshot_without_sessions_def std_keys_def
      Let_def setQueryData_def preferences_query_def git_status_query_def)
  from rest rest2 thr show ?thesis unfolding k k2 keys by simp
qed

text \<open>
  C10. \<^verbatim>\<open>getPreloadedData\<close> returns \<^verbatim>\<open>null\<close> on every call, in every state of the
  preloader. When the data has been preloaded, the call only queues the callback that
  would assign it: the local variable receives the snapshot when the microtask runs,
  after the function has returned.
\<close>

theorem getPreloadedData_returns_null:
  "fst (getPreloadedData st) = None \<and>
   (hasPreloadedData st \<and> initialDataPromise st = Some (PFulfilled v) \<and> microtasks st = [] \<longrightarrow>
      locals (run_microtasks (snd (getPreloadedData st))) (next_local st) = Some v)"
proof (intro conjI impI)
  show "fst (getPreloadedData st) = None"
    by (simp add: getPreloadedData_def Let_def)
  assume a: "hasPreloadedData st \<and> initialDataPromise st = Some (PFulfilled v) \<and> microtasks st = []"
  then show "locals (run_microtasks (snd (getPreloadedData st))) (next_local st) = Some v"
    by (simp add: getPreloadedData_def hasPreloadedData_def Let_def promise_then_def
        run_microtasks_def)
qed

theorem getPreloadedData_returns_null_witness:
  "hasPreloadedData preloaded \<and> initialDataPromise preloaded = Some (PFulfilled (Some snapshot)) \<and>
   microtasks preloaded = [] \<and>
   fst (getPreloadedData preloaded) = None \<and>
   locals (run_microtasks (snd (getPreloadedData preloaded))) (next_local preloaded) =
     Some (Some snapshot)"
proof -
  have p: "hasPreloadedData preloaded" "initialDataPromise preloaded = Some (PFulfilled (Some snapshot))"
    "microtasks preloaded = []"
    by (simp_all add: preloaded_def preload_resume_def preloadInitialData_def preloader_init_def
        fulfil_def hasPreloadedData_def)
  from getPreloadedData_returns_null[of preloaded "Some snapshot"] p show ?thesis by simp
qed

end
